theory Spec2Isabelle
  imports Main "HOL-Library.Word" "HOL-Library.Signed_Division"
begin

unbundle bit_operations_syntax

section \<open>lfpsplitter: the container parser of \<^verbatim>\<open>lfpsplitter.c\<close>\<close>

text \<open>
  The program loads a \<^verbatim>\<open>.lfp\<close> file into one heap block, checks its signature, skips a
  16-byte primary header and then calls \<^verbatim>\<open>parse_section\<close> until it returns \<^verbatim>\<open>NULL\<close>.

  Conventions of the embedding:
  \<^item> a C \<^verbatim>\<open>int\<close> is a \<open>32 word\<close> (\<open>sint\<close> reads it; \<open>+\<close> and \<open>-\<close> wrap);
    \<^verbatim>\<open>size_t\<close> is 64 bits wide; \<^verbatim>\<open>uint32_t\<close> is a \<open>32 word\<close> read by \<open>unat\<close>;
  \<^item> memory is a total function from addresses to bytes; the file buffer starts at
    address 0, so a \<^verbatim>\<open>char *\<close> into it is a natural number;
  \<^item> the answers of \<^verbatim>\<open>calloc\<close>/\<^verbatim>\<open>malloc\<close>/\<^verbatim>\<open>strdup\<close> and of the file system are
    parameters;
  \<^item> \<^verbatim>\<open>parse_section\<close> returns, next to its C results, the list of addresses it read and
    the sizes it asked \<^verbatim>\<open>malloc\<close> for, in program order.
\<close>

type_synonym byte = "8 word"
type_synonym c_int = "32 word"
type_synonym memory = "nat \<Rightarrow> byte"

definition SHA1_LENGTH :: nat where "SHA1_LENGTH = 45"
definition MAGIC_LENGTH :: nat where "MAGIC_LENGTH = 12"
definition BLANK_LENGTH :: nat where "BLANK_LENGTH = 35"

text \<open>\<^verbatim>\<open>sizeof(uint32_t)\<close>.\<close>
definition sizeof_uint32_t :: nat where "sizeof_uint32_t = 4"

text \<open>
  Modelled from the spec: \<^verbatim>\<open>lfp_section_t\<close> is declared in \<^verbatim>\<open>lfpsplitter.h\<close>, which is
  not part of the sources. Its fields are the ones \<^verbatim>\<open>parse_section\<close> assigns; \<open>len\<close> is
  the spec's "unsigned 32-bit value", \<open>type\<close> holds 4 bytes and \<open>sha1\<close> holds 45.
\<close>
record lfp_section =
  section_type :: "byte list"
  section_len :: "32 word"
  section_data :: "byte list"
  section_sha1 :: "byte list"

text \<open>The \<open>n\<close> bytes at address \<open>p\<close> (what \<^verbatim>\<open>memcpy\<close> and \<^verbatim>\<open>memcmp\<close> read) and their addresses.\<close>
definition bytes_at :: "memory \<Rightarrow> nat \<Rightarrow> nat \<Rightarrow> byte list" where
  "bytes_at mem p n = map mem [p ..< p + n]"

definition addrs :: "nat \<Rightarrow> nat \<Rightarrow> nat list" where
  "addrs p n = [p ..< p + n]"

subsection \<open>\<^verbatim>\<open>load_file\<close>\<close>

text \<open>
  \<^verbatim>\<open>load_file\<close> allocates a block of exactly the file's size and fills it; \<open>beyond\<close> is
  whatever the heap holds after that block.
\<close>
definition load_file :: "byte list \<Rightarrow> memory \<Rightarrow> memory \<times> c_int" where
  "load_file contents beyond =
     (\<lambda>a. if a < length contents then contents ! a else beyond a, word_of_nat (length contents))"

subsection \<open>\<^verbatim>\<open>lfp_file_check\<close>\<close>

definition magic :: "byte list" where
  "magic = [0x89, 0x4C, 0x46, 0x50, 0x0D, 0x0A, 0x1A, 0x0A]"

definition lfp_file_check :: "memory \<Rightarrow> c_int \<Rightarrow> bool" where
  "lfp_file_check buf len \<longleftrightarrow> 8 <s len \<and> bytes_at buf 0 8 = magic"

subsection \<open>\<^verbatim>\<open>parse_section\<close>\<close>

text \<open>
  The loop \<^verbatim>\<open>while (*ptr == '\0' && len) { ptr++; len--; }\<close>. Each test reads \<^verbatim>\<open>*ptr\<close>
  first and looks at \<open>len\<close> second; the third component lists the addresses read.
\<close>
function skip_nulls :: "memory \<Rightarrow> nat \<Rightarrow> c_int \<Rightarrow> nat \<times> c_int \<times> nat list" where
  "skip_nulls mem ptr len =
     (if mem ptr = 0 \<and> len \<noteq> 0
      then (case skip_nulls mem (ptr + 1) (len - 1) of (p, l, rd) \<Rightarrow> (p, l, ptr # rd))
      else (ptr, len, [ptr]))"
  by pat_completeness auto
termination
  by (relation "measure (\<lambda>(mem, ptr, len). unat len)") (auto simp: measure_unat)

declare skip_nulls.simps [simp del]

text \<open>\<^verbatim>\<open>ntohl(*(uint32_t *)ptr)\<close>: the four bytes at \<open>ptr\<close>, most significant first.\<close>
definition ntohl_at :: "memory \<Rightarrow> nat \<Rightarrow> 32 word" where
  "ntohl_at mem p =
     push_bit 24 (ucast (mem p)) OR push_bit 16 (ucast (mem (p + 1)))
       OR push_bit 8 (ucast (mem (p + 2))) OR ucast (mem (p + 3))"

datatype access = Read nat | Malloc nat

text \<open>
  The arguments \<open>cur\<close> and \<open>in_len\<close> are the values of \<^verbatim>\<open>*lfp\<close> and \<^verbatim>\<open>*in_len\<close> at the call.
  The result is \<open>((section, *lfp, *in_len), accesses)\<close>: the returned pointer (\<open>None\<close> for
  \<^verbatim>\<open>NULL\<close>), the caller's two variables after the call, and what the call touched.
  \<open>calloc_ok\<close> and \<open>malloc_ok\<close> say whether the two allocations succeed.

  The comparison \<^verbatim>\<open>len <= MAGIC_LENGTH+sizeof(uint32_t)+SHA1_LENGTH+BLANK_LENGTH\<close> is made in
  \<^verbatim>\<open>size_t\<close>, because of the \<^verbatim>\<open>sizeof\<close>: \<open>len\<close> is sign-extended to 64 bits and compared
  unsigned. \<^verbatim>\<open>len < section->len\<close> is made in \<^verbatim>\<open>unsigned int\<close>.
\<close>
definition parse_section_acc ::
  "memory \<Rightarrow> bool \<Rightarrow> bool \<Rightarrow> nat \<Rightarrow> c_int \<Rightarrow> (lfp_section option \<times> nat \<times> c_int) \<times> access list" where
  "parse_section_acc mem calloc_ok malloc_ok cur in_len =
     (if \<not> calloc_ok then ((None, cur, in_len), [])
      else
        case skip_nulls mem cur in_len of (ptr0, len0, rd0) \<Rightarrow>
        if (scast len0 :: 64 word)
             \<le> word_of_nat (MAGIC_LENGTH + sizeof_uint32_t + SHA1_LENGTH + BLANK_LENGTH)
        then ((None, cur, in_len), map Read rd0)
        else
          let type = bytes_at mem ptr0 4;
              ptr1 = ptr0 + MAGIC_LENGTH;
              len1 = len0 - word_of_nat MAGIC_LENGTH;
              slen = ntohl_at mem ptr1;
              ptr2 = ptr1 + sizeof_uint32_t;
              len2 = len1 - word_of_nat sizeof_uint32_t;
              sha1 = bytes_at mem ptr2 SHA1_LENGTH;
              ptr3 = ptr2 + (SHA1_LENGTH + BLANK_LENGTH);
              len3 = len2 - word_of_nat (SHA1_LENGTH + BLANK_LENGTH);
              rd3 = map Read (rd0 @ addrs ptr0 4 @ addrs ptr1 4 @ addrs ptr2 SHA1_LENGTH)
          in
            if len3 < slen then ((None, cur, in_len), rd3)
            else if \<not> malloc_ok then ((None, cur, in_len), rd3 @ [Malloc (unat slen)])
            else
              ((Some \<lparr>section_type = type, section_len = slen,
                      section_data = bytes_at mem ptr3 (unat slen), section_sha1 = sha1\<rparr>,
                ptr3 + unat slen, len3 - slen),
               rd3 @ [Malloc (unat slen)] @ map Read (addrs ptr3 (unat slen))))"

text \<open>What the caller of \<^verbatim>\<open>parse_section\<close> sees.\<close>
definition parse_section ::
  "memory \<Rightarrow> bool \<Rightarrow> bool \<Rightarrow> nat \<Rightarrow> c_int \<Rightarrow> lfp_section option \<times> nat \<times> c_int" where
  "parse_section mem calloc_ok malloc_ok cur in_len =
     fst (parse_section_acc mem calloc_ok malloc_ok cur in_len)"

subsection \<open>The C library's \<^verbatim>\<open>"%f"\<close> conversion\<close>

text \<open>
  \<^verbatim>\<open>printf\<close> is not part of the program; this is the conversion the C standard prescribes for
  an IEEE-754 binary32 value (passed as \<^verbatim>\<open>double\<close>, which is exact), as glibc performs it: the
  exact value is rounded to six decimals, ties to even, and printed without exponent; a set
  sign bit prints \<^verbatim>\<open>-\<close>, also before \<^verbatim>\<open>0.000000\<close>, \<^verbatim>\<open>inf\<close> and \<^verbatim>\<open>nan\<close>.

  A float with biased exponent \<open>e < 255\<close> and fraction \<open>f\<close> has the magnitude
  \<open>float_scaled * 2^-149\<close>: \<open>f * 2^-149\<close> when \<open>e = 0\<close> (subnormal) and
  \<open>(2^23 + f) * 2^(e - 150)\<close> otherwise. \<open>round_half_even a b\<close> is the integer nearest to
  \<open>a / b\<close>, the even one of two.
\<close>

definition float_exponent :: "32 word \<Rightarrow> nat" where
  "float_exponent w = unat (take_bit 8 (drop_bit 23 w))"

definition float_fraction :: "32 word \<Rightarrow> nat" where
  "float_fraction w = unat (take_bit 23 w)"

definition float_scaled :: "32 word \<Rightarrow> nat" where
  "float_scaled w =
     (if float_exponent w = 0 then float_fraction w
      else (2 ^ 23 + float_fraction w) * 2 ^ (float_exponent w - 1))"

definition round_half_even :: "nat \<Rightarrow> nat \<Rightarrow> nat" where
  "round_half_even a b =
     (let q = a div b; r = a mod b
      in if b < 2 * r \<or> (2 * r = b \<and> odd q) then q + 1 else q)"

definition digit :: "nat \<Rightarrow> char" where
  "digit d = ''0123456789'' ! d"

fun dec :: "nat \<Rightarrow> string" where
  "dec n = (if n < 10 then [digit n] else dec (n div 10) @ [digit (n mod 10)])"

declare dec.simps [simp del]

definition frac6 :: "nat \<Rightarrow> string" where
  "frac6 n = [digit (n div 100000 mod 10), digit (n div 10000 mod 10), digit (n div 1000 mod 10),
              digit (n div 100 mod 10), digit (n div 10 mod 10), digit (n mod 10)]"

text \<open>The value in millionths, rounded, that \<^verbatim>\<open>"%f"\<close> prints for a finite float.\<close>
definition float_micro :: "32 word \<Rightarrow> nat" where
  "float_micro w = round_half_even (float_scaled w * 10 ^ 6) (2 ^ 149)"

definition printf_f :: "32 word \<Rightarrow> string" where
  "printf_f w =
     (if bit w 31 then ''-'' else [])
     @ (if float_exponent w = 255 then (if float_fraction w = 0 then ''inf'' else ''nan'')
        else dec (float_micro w div 10 ^ 6) @ ''.'' @ frac6 (float_micro w mod 10 ^ 6))"

text \<open>
  \<^verbatim>\<open>snprintf(val, n, "%f\n", x)\<close> stores the first \<open>n - 1\<close> characters of the output and
  a terminating NUL; \<^verbatim>\<open>strlen\<close> counts the characters before the first NUL.
\<close>
definition snprintf_f :: "nat \<Rightarrow> 32 word \<Rightarrow> string" where
  "snprintf_f n x = take (n - 1) (printf_f x @ [CHR 0x0A])"

definition strlen :: "string \<Rightarrow> nat" where
  "strlen s = length (takeWhile (\<lambda>c. c \<noteq> CHR 0x00) s)"

subsection \<open>\<^verbatim>\<open>depth_string\<close>\<close>

datatype fault = SectionsOverrun | DepthOverrun | DepthOverread

text \<open>
  \<^verbatim>\<open>*(float *)(data+i*4)\<close> on a little-endian host: the bit pattern of the \<open>i\<close>-th sample,
  and the read itself, which is \<open>None\<close> when the four bytes are not all inside the payload
  block.
\<close>
definition float_bits :: "byte list \<Rightarrow> nat \<Rightarrow> 32 word" where
  "float_bits data i =
     push_bit 24 (ucast (data ! (4 * i + 3))) OR push_bit 16 (ucast (data ! (4 * i + 2)))
       OR push_bit 8 (ucast (data ! (4 * i + 1))) OR ucast (data ! (4 * i))"

definition float_at :: "byte list \<Rightarrow> nat \<Rightarrow> 32 word option" where
  "float_at data i = (if 4 * i + 4 \<le> length data then Some (float_bits data i) else None)"

text \<open>
  The \<^verbatim>\<open>for\<close> loop. \<open>cap\<close> is the size of the block \<^verbatim>\<open>malloc(filelen)\<close> returned, \<open>n\<close> is
  \<^verbatim>\<open>len/4\<close>, and \<open>depth\<close> is the text written so far, so \<open>length depth\<close> is the offset of the
  C pointer \<^verbatim>\<open>depth\<close> from \<^verbatim>\<open>start\<close>. \<^verbatim>\<open>strncpy(depth, val, vallen)\<close> writes \<open>vallen\<close>
  bytes there; a write that does not fit the block is the fault \<open>DepthOverrun\<close>.
\<close>
function depth_loop :: "byte list \<Rightarrow> nat \<Rightarrow> nat \<Rightarrow> nat \<Rightarrow> string \<Rightarrow> fault + string" where
  "depth_loop data cap n i depth =
     (if i < n then
        (case float_at data i of
           None \<Rightarrow> Inl DepthOverread
         | Some x \<Rightarrow>
             let val = snprintf_f 20 x;
                 vallen = strlen val
             in if cap < length depth + vallen then Inl DepthOverrun
                else depth_loop data cap n (i + 1) (depth @ take vallen val))
      else Inr depth)"
  by pat_completeness auto
termination
  by (relation "measure (\<lambda>(data, cap, n, i, depth). n - i)") auto

declare depth_loop.simps [simp del]

text \<open>
  \<open>Inr None\<close> is the \<^verbatim>\<open>NULL\<close> return; \<open>Inr (Some (text, datalen))\<close> is the returned buffer
  with the value stored in \<^verbatim>\<open>*datalen\<close>. \<^verbatim>\<open>20*len/4\<close> is an \<^verbatim>\<open>int\<close> expression. An overflow of
  the signed product is undefined in C, so the compiler need not wrap it before the division,
  and it does not: it computes \<^verbatim>\<open>5*len\<close>. Accordingly the quotient is taken of the exact
  product, and only the value stored in \<^verbatim>\<open>filelen\<close> wraps to 32 bits; \<^verbatim>\<open>malloc\<close> takes it
  as a \<^verbatim>\<open>size_t\<close>. The store \<^verbatim>\<open>depth[0] = '\0'\<close> needs a block of at least one byte.
\<close>
definition depth_string :: "bool \<Rightarrow> byte list \<Rightarrow> c_int \<Rightarrow> fault + (string \<times> c_int) option" where
  "depth_string malloc_ok data len =
     (let filelen = (word_of_int (20 * sint len sdiv 4) :: c_int) in
      if \<not> malloc_ok then Inr None
      else
        let cap = unat (scast filelen :: 64 word) in
        if cap < 1 then Inl DepthOverrun
        else
          case depth_loop data cap (nat (sint len sdiv 4)) 0 [] of
            Inl f \<Rightarrow> Inl f
          | Inr depth \<Rightarrow> Inr (Some (depth, word_of_nat (length depth))))"

subsection \<open>\<^verbatim>\<open>save_data\<close> and \<^verbatim>\<open>main\<close>\<close>

text \<open>
  What \<^verbatim>\<open>main\<close> does to the outside: files handed to \<^verbatim>\<open>save_data\<close> and lines printed.
\<close>
datatype event = Save string "byte list" | Stdout string | Stderr string

text \<open>
  The environment of one run: the file system (\<open>fs_files\<close> for \<^verbatim>\<open>fopen(.., "r")\<close>,
  \<open>fs_save_ok\<close> for the outcome of writing a file), the heap after the file buffer
  (\<open>mem_beyond\<close>), and the allocator's answers: \<open>alloc_section n\<close> for the \<^verbatim>\<open>calloc\<close> and the
  \<^verbatim>\<open>malloc\<close> of the \<open>n\<close>-th call of \<^verbatim>\<open>parse_section\<close> (counted from 0), \<open>alloc_strdup\<close> for
  \<^verbatim>\<open>strdup\<close> and \<open>alloc_depth\<close> for the \<^verbatim>\<open>malloc\<close> of \<^verbatim>\<open>depth_string\<close>.
\<close>
record env =
  fs_files :: "string \<Rightarrow> byte list option"
  mem_beyond :: memory
  alloc_section :: "nat \<Rightarrow> bool \<times> bool"
  alloc_strdup :: bool
  alloc_depth :: bool
  fs_save_ok :: "string \<Rightarrow> bool"

definition save_data :: "env \<Rightarrow> byte list \<Rightarrow> c_int \<Rightarrow> string \<Rightarrow> bool \<times> event list" where
  "save_data E data len filename = (fs_save_ok E filename, [Save filename (take (unat len) data)])"

text \<open>A call of \<^verbatim>\<open>save_data\<close> followed by the line \<^verbatim>\<open>main\<close> prints about it.\<close>
definition save_and_report :: "env \<Rightarrow> byte list \<Rightarrow> c_int \<Rightarrow> string \<Rightarrow> event list" where
  "save_and_report E data len name =
     (case save_data E data len name of
        (ok, evs) \<Rightarrow>
          evs @ [if ok then Stdout (''Saved '' @ name @ [CHR 0x0A])
                 else Stderr (''Failed to save '' @ name @ [CHR 0x0A])])"

text \<open>\<^verbatim>\<open>snprintf(name, 256, "%s<suffix>", prefix)\<close>.\<close>
definition file_name :: "string \<Rightarrow> string \<Rightarrow> string" where
  "file_name prefix suffix = take 255 (prefix @ suffix)"

text \<open>\<^verbatim>\<open>period = strrchr(prefix,'.'); if (period) *period = '\0';\<close>\<close>
definition strip_ext :: "string \<Rightarrow> string" where
  "strip_ext s =
     (if CHR ''.'' \<in> set s then rev (tl (dropWhile (\<lambda>c. c \<noteq> CHR ''.'') (rev s))) else s)"

text \<open>
  One turn of \<^verbatim>\<open>while (len > 0) { ... }\<close> on the state \<open>(ptr, len, sections)\<close>, where
  \<open>num_sections = length sections\<close>: \<open>None\<close> when the loop ends, \<open>Some (Inl SectionsOverrun)\<close>
  when the store \<^verbatim>\<open>sections[num_sections] = section\<close> falls outside the array of 100 pointers.
\<close>
type_synonym main_state = "nat \<times> c_int \<times> lfp_section list"

definition main_step :: "memory \<Rightarrow> (nat \<Rightarrow> bool \<times> bool) \<Rightarrow> main_state \<Rightarrow> (fault + main_state) option" where
  "main_step mem hp st =
     (case st of (ptr, len, sections) \<Rightarrow>
        if 0 <s len then
          (case parse_section mem (fst (hp (length sections))) (snd (hp (length sections))) ptr len of
             (None, ptr', len') \<Rightarrow> None
           | (Some section, ptr', len') \<Rightarrow>
               if 100 \<le> length sections then Some (Inl SectionsOverrun)
               else Some (Inr (ptr', len', sections @ [section])))
        else None)"

function main_loop :: "memory \<Rightarrow> (nat \<Rightarrow> bool \<times> bool) \<Rightarrow> main_state \<Rightarrow> fault + main_state" where
  "main_loop mem hp st =
     (case main_step mem hp st of
        None \<Rightarrow> Inr st
      | Some (Inl f) \<Rightarrow> Inl f
      | Some (Inr st') \<Rightarrow> main_loop mem hp st')"
  by pat_completeness auto
termination
  by (relation "measure (\<lambda>(mem, hp, st). 100 - length (snd (snd st)))")
     (auto simp: main_step_def split: if_splits prod.splits option.splits)

declare main_loop.simps [simp del]

text \<open>The state after \<open>k\<close> turns of the loop, if it runs that long.\<close>
fun main_iter :: "memory \<Rightarrow> (nat \<Rightarrow> bool \<times> bool) \<Rightarrow> nat \<Rightarrow> main_state \<Rightarrow> (fault + main_state) option" where
  "main_iter mem hp 0 st = Some (Inr st)"
| "main_iter mem hp (Suc k) st =
     (case main_step mem hp st of
        None \<Rightarrow> None
      | Some (Inl f) \<Rightarrow> Some (Inl f)
      | Some (Inr st') \<Rightarrow> main_iter mem hp k st')"

text \<open>
  The state in which \<^verbatim>\<open>main\<close> enters the loop, after
  \<^verbatim>\<open>ptr += MAGIC_LENGTH+sizeof(uint32_t); len -= MAGIC_LENGTH+sizeof(uint32_t);\<close>.
\<close>
definition main_start :: "c_int \<Rightarrow> main_state" where
  "main_start len =
     (MAGIC_LENGTH + sizeof_uint32_t, len - word_of_nat (MAGIC_LENGTH + sizeof_uint32_t), [])"

text \<open>The branch \<^verbatim>\<open>if (num_sections > 2) { ... }\<close>.\<close>
definition save_sections :: "env \<Rightarrow> string \<Rightarrow> lfp_section list \<Rightarrow> fault + event list" where
  "save_sections E prefix sections =
     (let metadata = save_and_report E (section_data (sections ! 0)) (section_len (sections ! 0))
                       (file_name prefix ''_metadata.txt'');
          images = concat (map (\<lambda>i. save_and_report E (section_data (sections ! i))
                                      (section_len (sections ! i))
                                      (file_name prefix (''_'' @ dec (i - 2) @ ''.jpg'')))
                             [2 ..< length sections])
      in case depth_string (alloc_depth E) (section_data (sections ! 1)) (section_len (sections ! 1)) of
           Inl f \<Rightarrow> Inl f
         | Inr None \<Rightarrow> Inr (metadata @ images)
         | Inr (Some (depth, depthlen)) \<Rightarrow>
             Inr (metadata
                  @ save_and_report E (map of_char depth) depthlen (file_name prefix ''_depth.txt'')
                  @ images))"

text \<open>\<open>argv\<close> includes the program name; the result is the exit code and what was done.\<close>
definition main :: "env \<Rightarrow> string list \<Rightarrow> fault + (int \<times> event list)" where
  "main E argv =
     (if length argv < 2 then Inr (1, [Stderr (''Usage: lfpsplitter file.lfp'' @ [CHR 0x0A])])
      else
        case fs_files E (argv ! 1) of
          None \<Rightarrow> Inr (1, [Stderr (''Failed to open file '' @ argv ! 1 @ [CHR 0x0A])])
        | Some contents \<Rightarrow>
            (case load_file contents (mem_beyond E) of
               (buf, len) \<Rightarrow>
                 if \<not> lfp_file_check buf len
                 then Inr (1, [Stderr (''File '' @ argv ! 1 @ '' does not look like an lfp'' @ [CHR 0x0A])])
                 else if \<not> alloc_strdup E then Inr (1, [])
                 else
                   case main_loop buf (alloc_section E) (main_start len) of
                     Inl f \<Rightarrow> Inl f
                   | Inr (ptr, len', sections) \<Rightarrow>
                       if 2 < length sections then
                         (case save_sections E (strip_ext (argv ! 1)) sections of
                            Inl f \<Rightarrow> Inl f
                          | Inr evs \<Rightarrow> Inr (0, evs))
                       else
                         Inr (0, [Stderr (''Something went wrong, no images found in '' @ argv ! 1
                                          @ [CHR 0x0A])])))"

text \<open>The files a run handed to \<^verbatim>\<open>save_data\<close>, in order: name and contents.\<close>
fun saved :: "event list \<Rightarrow> (string \<times> byte list) list" where
  "saved [] = []"
| "saved (Save name bytes # evs) = (name, bytes) # saved evs"
| "saved (Stdout line # evs) = saved evs"
| "saved (Stderr line # evs) = saved evs"

subsection \<open>Reading a line back as a float\<close>

text \<open>
  Modelled from the spec: the round trip of the specification parses a line of the depth text
  back into a float. The program has no parser, so the property is stated for every float a
  correctly rounding decimal-to-binary32 conversion (IEEE 754, the C library's \<^verbatim>\<open>strtof\<close>) may
  return for the text: a float of the sign the text shows that is infinite for \<^verbatim>\<open>inf\<close>, a NaN
  for \<^verbatim>\<open>nan\<close>, and otherwise finite and at least as close to the decimal value of the text as
  every other finite float. A text with \<open>k\<close> digits after the point that reads as the number
  \<open>num\<close> without the point has the value \<open>num / 10^k\<close>; distances are compared in units of
  \<open>2^-149 / 10^k\<close>.
\<close>
definition undec :: "string \<Rightarrow> nat" where
  "undec s = foldl (\<lambda>a c. 10 * a + (of_char c - 48)) 0 s"

definition nearest_float :: "nat \<Rightarrow> nat \<Rightarrow> 32 word \<Rightarrow> bool" where
  "nearest_float num k w \<longleftrightarrow>
     float_exponent w \<noteq> 255 \<and>
     (\<forall>z. float_exponent z \<noteq> 255 \<longrightarrow>
        \<bar>int (float_scaled w) * 10 ^ k - int num * 2 ^ 149\<bar>
          \<le> \<bar>int (float_scaled z) * 10 ^ k - int num * 2 ^ 149\<bar>)"

definition reads_unsigned :: "string \<Rightarrow> 32 word \<Rightarrow> bool" where
  "reads_unsigned body w \<longleftrightarrow>
     (if body = ''inf'' then float_exponent w = 255 \<and> float_fraction w = 0
      else if body = ''nan'' then float_exponent w = 255 \<and> float_fraction w \<noteq> 0
      else
        let ip = takeWhile (\<lambda>c. c \<noteq> CHR ''.'') body;
            fp = drop (length ip + 1) body
        in nearest_float (undec ip * 10 ^ length fp + undec fp) (length fp) w)"

definition reads_as :: "string \<Rightarrow> 32 word \<Rightarrow> bool" where
  "reads_as s w \<longleftrightarrow>
     (if take 1 s = ''-'' then bit w 31 \<and> reads_unsigned (drop 1 s) w
      else \<not> bit w 31 \<and> reads_unsigned s w)"

subsection \<open>The failure kinds of the specification\<close>

text \<open>
  The specification names three ways in which \<^verbatim>\<open>parse_section\<close> can decline a record. This
  definition follows the specification's algorithm, not the code: end of stream when the
  remaining length reaches zero while the padding is skipped, a truncated record when at most
  96 bytes remain, and an oversized declaration when the big-endian length field exceeds what
  remains after the header.
\<close>
datatype failure = EndOfStream | TruncatedRecord | OversizedPayloadDeclaration

definition spec_failure :: "memory \<Rightarrow> nat \<Rightarrow> c_int \<Rightarrow> failure option" where
  "spec_failure mem cur in_len =
     (case skip_nulls mem cur in_len of (p, l, rd) \<Rightarrow>
        if l = 0 then Some EndOfStream
        else if sint l \<le> 96 then Some TruncatedRecord
        else if sint l - 96 < uint (ntohl_at mem (p + 12)) then Some OversizedPayloadDeclaration
        else None)"

subsection \<open>Concrete inputs\<close>

text \<open>
  Inputs at which the theorems below are instantiated. \<open>zeroed\<close> is a heap of zero bytes.
  \<open>sample_header n\<close> is a 96-byte record header declaring \<open>n\<close> payload bytes, and
  \<open>sample_container\<close> is a 313-byte file with three records: two bytes of metadata, one
  float (1.0) of depth table, and a three-byte image; \<open>sample_sections\<close> are these records,
  parsed.
\<close>
definition zeroed :: memory where
  "zeroed a = 0"

definition sample_header :: "byte \<Rightarrow> byte list" where
  "sample_header n = [0x89, 0x4C, 0x46, 0x4D] @ replicate 8 0 @ [0, 0, 0, n] @ replicate 80 0"

definition sample_container :: "byte list" where
  "sample_container =
     magic @ replicate 8 0
       @ sample_header 2 @ [0x7B, 0x7D]
       @ sample_header 4 @ [0x00, 0x00, 0x80, 0x3F]
       @ sample_header 3 @ [0xFF, 0xD8, 0xFF]"

definition sample_sections :: "lfp_section list" where
  "sample_sections =
     [\<lparr>section_type = [0x89, 0x4C, 0x46, 0x4D], section_len = 2,
        section_data = [0x7B, 0x7D], section_sha1 = replicate 45 0\<rparr>,
      \<lparr>section_type = [0x89, 0x4C, 0x46, 0x4D], section_len = 4,
        section_data = [0x00, 0x00, 0x80, 0x3F], section_sha1 = replicate 45 0\<rparr>,
      \<lparr>section_type = [0x89, 0x4C, 0x46, 0x4D], section_len = 3,
        section_data = [0xFF, 0xD8, 0xFF], section_sha1 = replicate 45 0\<rparr>]"

text \<open>
  Single regions of 100 bytes: a record of three payload bytes followed by one padding byte,
  a header that declares \<open>0x01000000\<close> payload bytes, and four padding bytes before a header
  that is cut short. \<open>zero_tail_file\<close> is a 17-byte file that ends in one padding byte.
\<close>
definition one_record :: "byte list" where
  "one_record = sample_header 3 @ [0xFF, 0xD8, 0xFF, 0x00]"

definition oversized_record :: "byte list" where
  "oversized_record = [0x89, 0x4C, 0x46, 0x4D] @ replicate 8 0 @ [1, 0, 0, 0] @ replicate 84 0"

definition truncated_record :: "byte list" where
  "truncated_record = replicate 4 0 @ [0x89, 0x4C, 0x46, 0x4D] @ replicate 92 0"

definition zero_tail_file :: "byte list" where
  "zero_tail_file = magic @ replicate 8 0 @ [0]"

text \<open>
  \<open>short_file\<close> is a 9-byte file with a valid signature, \<open>small_container\<close> a 116-byte file
  with a single record, and \<open>sample_env\<close> an environment that holds both containers and in
  which every allocation and every write succeeds.
\<close>
definition short_file :: "byte list" where
  "short_file = magic @ [0x00]"

definition small_container :: "byte list" where
  "small_container = magic @ replicate 8 0 @ one_record"

definition sample_env :: env where
  "sample_env =
     \<lparr>fs_files = (\<lambda>name. if name = ''a.lfp'' then Some sample_container
                        else if name = ''b.lfp'' then Some small_container else None),
      mem_beyond = zeroed,
      alloc_section = (\<lambda>n. (True, True)),
      alloc_strdup = True,
      alloc_depth = True,
      fs_save_ok = (\<lambda>name. True)\<rparr>"

text \<open>
  \<open>crowded_container\<close> is a 9813-byte file with 101 records of one payload byte each (a
  96-byte header declaring the length 1 and the byte \<open>FF\<close>); \<open>crowded_env\<close> holds it under
  the name \<^verbatim>\<open>c.lfp\<close>.
\<close>
definition crowded_container :: "byte list" where
  "crowded_container = magic @ replicate 8 0 @ concat (replicate 101 (sample_header 1 @ [0xFF]))"

definition crowded_env :: env where
  "crowded_env =
     \<lparr>fs_files = (\<lambda>name. if name = ''c.lfp'' then Some crowded_container else None),
      mem_beyond = zeroed,
      alloc_section = (\<lambda>n. (True, True)),
      alloc_strdup = True,
      alloc_depth = True,
      fs_save_ok = (\<lambda>name. True)\<rparr>"

section \<open>The magic check\<close>

lemma bytes_at_load_file:
  "n \<le> length contents \<Longrightarrow> bytes_at (fst (load_file contents beyond)) 0 n = take n contents"
  by (auto simp: bytes_at_def load_file_def intro!: nth_equalityI)

lemma sint_length_of_file:
  "length contents < 2 ^ 31 \<Longrightarrow> sint (word_of_nat (length contents) :: c_int) = int (length contents)"
  by (simp add: signed_of_nat signed_take_bit_int_eq_self)

text \<open>
  C4. \<^verbatim>\<open>lfp_file_check\<close> is true exactly when the length is greater than 8 and the first
  8 bytes of the buffer are \<open>89 4C 46 50 0D 0A 1A 0A\<close>; it is a pure predicate. For a file
  of fewer than \<open>2^31\<close> bytes (whose size fits the \<^verbatim>\<open>int\<close> that \<^verbatim>\<open>load_file\<close> stores), it is
  therefore true exactly when the file has more than 8 bytes and starts with the signature,
  and false for every shorter file and for every other beginning.
\<close>
theorem lfp_file_check_iff:
  "(lfp_file_check buf len
      \<longleftrightarrow> 8 < sint len \<and> bytes_at buf 0 8 = [0x89, 0x4C, 0x46, 0x50, 0x0D, 0x0A, 0x1A, 0x0A])
   \<and> (length contents < 2 ^ 31 \<longrightarrow>
        (lfp_file_check (fst (load_file contents beyond)) (snd (load_file contents beyond))
           \<longleftrightarrow> 8 < length contents
               \<and> take 8 contents = [0x89, 0x4C, 0x46, 0x50, 0x0D, 0x0A, 0x1A, 0x0A]))"
proof (intro conjI impI)
  show "lfp_file_check buf len
      \<longleftrightarrow> 8 < sint len \<and> bytes_at buf 0 8 = [0x89, 0x4C, 0x46, 0x50, 0x0D, 0x0A, 0x1A, 0x0A]"
    by (simp add: lfp_file_check_def magic_def word_sless_alt)
next
  assume small: "length contents < 2 ^ 31"
  show "lfp_file_check (fst (load_file contents beyond)) (snd (load_file contents beyond))
           \<longleftrightarrow> 8 < length contents
               \<and> take 8 contents = [0x89, 0x4C, 0x46, 0x50, 0x0D, 0x0A, 0x1A, 0x0A]"
  proof (cases "8 < length contents")
    case True
    then have "bytes_at (fst (load_file contents beyond)) 0 8 = take 8 contents"
      by (simp add: bytes_at_load_file)
    moreover have "8 <s (word_of_nat (length contents) :: c_int)"
      using True sint_length_of_file [OF small] by (simp add: word_sless_alt)
    ultimately show ?thesis
      using True by (simp add: lfp_file_check_def magic_def load_file_def)
  next
    case False
    then have "\<not> 8 <s (word_of_nat (length contents) :: c_int)"
      using sint_length_of_file [OF small] by (simp add: word_sless_alt)
    then show ?thesis
      using False by (simp add: lfp_file_check_def load_file_def)
  qed
qed

theorem lfp_file_check_iff_witness:
  "length (magic @ [0]) < 2 ^ 31
     \<and> lfp_file_check (fst (load_file (magic @ [0]) zeroed)) (snd (load_file (magic @ [0]) zeroed))
     \<and> \<not> lfp_file_check (fst (load_file magic zeroed)) (snd (load_file magic zeroed))"
proof -
  have l: "length (magic @ [0]) < 2 ^ 31" "length magic < 2 ^ 31"
    by (simp_all add: magic_def)
  from lfp_file_check_iff [of zeroed 0 "magic @ [0]" zeroed, THEN conjunct2] l(1)
  have "lfp_file_check (fst (load_file (magic @ [0]) zeroed)) (snd (load_file (magic @ [0]) zeroed))"
    by (simp add: magic_def)
  moreover from lfp_file_check_iff [of zeroed 0 magic zeroed, THEN conjunct2] l(2)
  have "\<not> lfp_file_check (fst (load_file magic zeroed)) (snd (load_file magic zeroed))"
    by (simp add: magic_def)
  ultimately show ?thesis
    using l(1) by simp
qed

section \<open>Machine integers\<close>

lemma uint_lt_of_unat: "unat (x :: c_int) < 2147483648 \<Longrightarrow> uint x < 2147483648"
  unfolding uint_nat by linarith

lemma sint_eq_unat: "unat (x :: c_int) < 2147483648 \<Longrightarrow> sint x = int (unat x)"
proof -
  assume "unat x < 2147483648"
  then have "uint x < 2 ^ 31"
    using uint_lt_of_unat by simp
  moreover have "- (2 ^ 31) \<le> uint x"
    by (rule order_trans [of _ 0]) simp_all
  ultimately have "signed_take_bit 31 (uint x) = uint x"
    by (rule signed_take_bit_int_eq_self [rotated])
  then have "sint x = uint x"
    by (simp add: sint_uint)
  then show ?thesis
    by (simp only: uint_nat)
qed

lemma sint_neg_unat: "\<not> unat (x :: c_int) < 2147483648 \<Longrightarrow> sint x < 0"
proof -
  assume "\<not> unat x < 2147483648"
  then have "2147483648 \<le> int (unat x)"
    by linarith
  moreover have "uint x = int (unat x)"
    by (rule uint_nat)
  ultimately have "2147483648 \<le> uint x"
    by linarith
  then have "2 ^ 31 \<le> uint x"
    by simp
  then have "signed_take_bit 31 (uint x) \<le> uint x - 2 ^ Suc 31"
    by (rule signed_take_bit_int_less_eq)
  moreover have "uint x - 2 ^ Suc 31 < 0"
    using uint_bounded [of x] by simp
  ultimately have "signed_take_bit 31 (uint x) < 0"
    by (rule le_less_trans)
  then show ?thesis
    by (simp add: sint_uint)
qed

lemma sint_nonneg_unat: "0 \<le> sint (x :: c_int) \<longleftrightarrow> unat x < 2147483648"
  using sint_eq_unat [of x] sint_neg_unat [of x] by (cases "unat x < 2147483648") auto

lemma unat_scast_nonneg:
  assumes "unat (x :: c_int) < 2147483648"
  shows "unat (scast x :: 64 word) = unat x"
proof -
  have "(scast x :: 64 word) = word_of_int (int (unat x))"
    by (simp only: scast_eq sint_eq_unat [OF assms])
  also have "\<dots> = word_of_nat (unat x)"
    by simp
  finally show ?thesis
    using assms by (simp add: unsigned_ucast_eq take_bit_nat_eq_self)
qed

lemma scast_le_96: "unat (x :: c_int) < 2147483648 \<Longrightarrow> (scast x :: 64 word) \<le> 96 \<longleftrightarrow> unat x \<le> 96"
  using unat_scast_nonneg [of x] by (simp add: word_le_nat_alt)

section \<open>The record parser\<close>

lemma skip_nulls_spec:
  "skip_nulls mem ptr len = (p, l, rd) \<Longrightarrow>
     \<exists>k. k \<le> unat len \<and> p = ptr + k \<and> l = len - word_of_nat k \<and> rd = [ptr ..< ptr + k + 1]
         \<and> (\<forall>i<k. mem (ptr + i) = 0) \<and> (l = 0 \<or> mem p \<noteq> 0)"
proof (induction mem ptr len arbitrary: p l rd rule: skip_nulls.induct)
  case (1 mem ptr len)
  show ?case
  proof (cases "mem ptr = 0 \<and> len \<noteq> 0")
    case True
    obtain p' l' rd' where sk: "skip_nulls mem (ptr + 1) (len - 1) = (p', l', rd')"
      by (cases "skip_nulls mem (ptr + 1) (len - 1)") auto
    from "1.IH" [OF True sk] obtain k where
      k: "k \<le> unat (len - 1)" "p' = ptr + 1 + k" "l' = len - 1 - word_of_nat k"
         "rd' = [ptr + 1 ..< ptr + 1 + k + 1]" "\<forall>i<k. mem (ptr + 1 + i) = 0" "l' = 0 \<or> mem p' \<noteq> 0"
      by blast
    from "1.prems" True sk have res: "p = p'" "l = l'" "rd = ptr # rd'"
      by (simp_all add: skip_nulls.simps [of mem ptr len])
    have ul: "unat (len - 1) = unat len - 1" "0 < unat len"
      using True by (simp_all add: unat_minus_one unat_gt_0)
    have z: "\<forall>i<Suc k. mem (ptr + i) = 0"
    proof (intro allI impI)
      fix i assume "i < Suc k"
      then show "mem (ptr + i) = 0"
        using True k(5) by (cases i) auto
    qed
    show ?thesis
      apply (rule exI [of _ "Suc k"])
      using k res ul z by (auto simp: upt_rec [of ptr])
  next
    case False
    with "1.prems" have "p = ptr" "l = len" "rd = [ptr]"
      by (auto simp: skip_nulls.simps [of mem ptr len])
    with False show ?thesis
      by (intro exI [of _ 0]) auto
  qed
qed

lemma unat_sub_of_nat:
  "k \<le> unat (x :: c_int) \<Longrightarrow> unat (x - word_of_nat k) = unat x - k"
proof -
  assume k: "k \<le> unat x"
  have "unat x < 2 ^ 32"
    using unsigned_less [of x] by simp
  with k have uk: "unat (word_of_nat k :: c_int) = k"
    by (simp add: unat_of_nat take_bit_nat_eq_self)
  with k have "(word_of_nat k :: c_int) \<le> x"
    by (simp add: word_le_nat_alt)
  then show ?thesis
    using uk by (simp add: unat_sub)
qed

lemma skip_nulls_bounds:
  assumes "skip_nulls mem ptr len = (p, l, rd)"
  shows "p + unat l = ptr + unat len" and "ptr \<le> p" and "rd = [ptr ..< p + 1]"
    and "\<forall>a. ptr \<le> a \<and> a < p \<longrightarrow> mem a = 0" and "l = 0 \<or> mem p \<noteq> 0"
proof -
  from skip_nulls_spec [OF assms] obtain k where
    k: "k \<le> unat len" "p = ptr + k" "l = len - word_of_nat k" "rd = [ptr ..< ptr + k + 1]"
       "\<forall>i<k. mem (ptr + i) = 0" "l = 0 \<or> mem p \<noteq> 0"
    by blast
  show "p + unat l = ptr + unat len"
    using k(1-3) by (simp add: unat_sub_of_nat)
  show "ptr \<le> p" using k(2) by simp
  show "rd = [ptr ..< p + 1]" using k(2,4) by simp
  show "l = 0 \<or> mem p \<noteq> 0" by (rule k(6))
  show "\<forall>a. ptr \<le> a \<and> a < p \<longrightarrow> mem a = 0"
  proof (intro allI impI)
    fix a assume a: "ptr \<le> a \<and> a < p"
    then have "a - ptr < k" using k(2) by auto
    with k(5) have "mem (ptr + (a - ptr)) = 0" by blast
    with a show "mem a = 0" by simp
  qed
qed

lemmas hdr_defs = MAGIC_LENGTH_def SHA1_LENGTH_def BLANK_LENGTH_def sizeof_uint32_t_def

lemma parse_section_acc_unfold:
  assumes "skip_nulls mem cur in_len = (p, l, rd)"
  shows "parse_section_acc mem calloc_ok malloc_ok cur in_len =
     (if \<not> calloc_ok then ((None, cur, in_len), [])
      else if (scast l :: 64 word) \<le> 96 then ((None, cur, in_len), map Read rd)
      else if l - 96 < ntohl_at mem (p + 12)
        then ((None, cur, in_len), map Read (rd @ addrs p 4 @ addrs (p + 12) 4 @ addrs (p + 16) 45))
      else if \<not> malloc_ok
        then ((None, cur, in_len), map Read (rd @ addrs p 4 @ addrs (p + 12) 4 @ addrs (p + 16) 45)
                @ [Malloc (unat (ntohl_at mem (p + 12)))])
      else ((Some \<lparr>section_type = bytes_at mem p 4, section_len = ntohl_at mem (p + 12),
                    section_data = bytes_at mem (p + 96) (unat (ntohl_at mem (p + 12))),
                    section_sha1 = bytes_at mem (p + 16) 45\<rparr>,
             p + 96 + unat (ntohl_at mem (p + 12)), l - 96 - ntohl_at mem (p + 12)),
            map Read (rd @ addrs p 4 @ addrs (p + 12) 4 @ addrs (p + 16) 45)
              @ [Malloc (unat (ntohl_at mem (p + 12)))]
              @ map Read (addrs (p + 96) (unat (ntohl_at mem (p + 12))))))"
  using assms by (simp add: parse_section_acc_def hdr_defs Let_def add.assoc)

lemma skip_nulls_nonneg:
  assumes "0 <=s in_len" and "skip_nulls mem cur in_len = (p, l, rd)"
  shows "unat l < 2147483648" and "unat l \<le> unat in_len"
proof -
  from assms(1) have "unat in_len < 2147483648"
    by (simp add: word_sle_eq sint_nonneg_unat)
  moreover from skip_nulls_bounds(1,2) [OF assms(2)] show "unat l \<le> unat in_len"
    by linarith
  ultimately show "unat l < 2147483648"
    by linarith
qed

lemma unat_sub_96:
  assumes "96 < unat (l :: c_int)"
  shows "unat (l - 96) = unat l - 96"
  using unat_sub_of_nat [of 96 l] assms by simp

lemma parse_section_Some:
  assumes "0 <=s in_len" and "skip_nulls mem cur in_len = (p, l, rd)"
    and "parse_section mem calloc_ok malloc_ok cur in_len = (Some s, cur', len')"
  shows "96 < unat l" and "section_len s = ntohl_at mem (p + 12)"
    and "unat (section_len s) \<le> unat l - 96"
    and "cur' = p + 96 + unat (section_len s)"
    and "unat len' = unat l - 96 - unat (section_len s)"
    and "section_data s = bytes_at mem (p + 96) (unat (section_len s))"
proof -
  note nn = skip_nulls_nonneg [OF assms(1,2)]
  from assms(3) have *: "calloc_ok" "\<not> (scast l :: 64 word) \<le> 96" "\<not> l - 96 < ntohl_at mem (p + 12)"
    "malloc_ok" "section_len s = ntohl_at mem (p + 12)" "cur' = p + 96 + unat (ntohl_at mem (p + 12))"
    "len' = l - 96 - ntohl_at mem (p + 12)"
    "section_data s = bytes_at mem (p + 96) (unat (ntohl_at mem (p + 12)))"
    unfolding parse_section_def parse_section_acc_unfold [OF assms(2)]
    by (auto split: if_splits)
  from *(2) nn(1) show l96: "96 < unat l"
    by (simp add: scast_le_96)
  show "section_len s = ntohl_at mem (p + 12)" by (rule *(5))
  from *(3) have le: "ntohl_at mem (p + 12) \<le> l - 96"
    by simp
  then show "unat (section_len s) \<le> unat l - 96"
    using l96 by (simp add: word_le_nat_alt unat_sub_96 *(5))
  show "cur' = p + 96 + unat (section_len s)"
    using *(5,6) by simp
  show "unat len' = unat l - 96 - unat (section_len s)"
    using le l96 by (simp add: *(5,7) unat_sub unat_sub_96)
  show "section_data s = bytes_at mem (p + 96) (unat (section_len s))"
    using *(5,8) by simp
qed

lemma parse_section_None_iff:
  assumes "skip_nulls mem cur in_len = (p, l, rd)"
  shows "fst (parse_section mem calloc_ok malloc_ok cur in_len) = None
           \<longleftrightarrow> \<not> calloc_ok \<or> (scast l :: 64 word) \<le> 96 \<or> l - 96 < ntohl_at mem (p + 12) \<or> \<not> malloc_ok"
  unfolding parse_section_def parse_section_acc_unfold [OF assms] by simp

lemma parse_section_None_unchanged:
  "fst (parse_section mem calloc_ok malloc_ok cur in_len) = None
     \<Longrightarrow> parse_section mem calloc_ok malloc_ok cur in_len = (None, cur, in_len)"
proof -
  obtain p l rd where sk: "skip_nulls mem cur in_len = (p, l, rd)"
    by (cases "skip_nulls mem cur in_len") auto
  assume "fst (parse_section mem calloc_ok malloc_ok cur in_len) = None"
  then show ?thesis
    unfolding parse_section_def parse_section_acc_unfold [OF sk] by (simp split: if_splits)
qed

lemma declared_exceeds_remaining:
  assumes "0 <=s in_len" and "skip_nulls mem cur in_len = (p, l, rd)"
    and "sint l - 96 < uint (ntohl_at mem (p + 12))"
  shows "(scast l :: 64 word) \<le> 96 \<or> l - 96 < ntohl_at mem (p + 12)"
proof (cases "unat l \<le> 96")
  case True
  then show ?thesis
    using skip_nulls_nonneg(1) [OF assms(1,2)] by (simp add: scast_le_96)
next
  case False
  have sl: "sint l = int (unat l)"
    by (rule sint_eq_unat [OF skip_nulls_nonneg(1) [OF assms(1,2)]])
  from False have "unat (l - 96) = unat l - 96"
    by (simp add: unat_sub_96)
  moreover have "int (unat l) - 96 < int (unat (ntohl_at mem (p + 12)))"
    using assms(3) sl by (simp only: uint_nat)
  ultimately have "unat (l - 96) < unat (ntohl_at mem (p + 12))"
    using False by linarith
  then have "l - 96 < ntohl_at mem (p + 12)"
    by (simp only: word_less_nat_alt)
  then show ?thesis ..
qed

lemma one_record_skip:
  "skip_nulls (fst (load_file one_record zeroed)) 0 100 = (0, 100, [0])"
  by code_simp

lemma one_record_parse:
  "parse_section (fst (load_file one_record zeroed)) True True 0 100
     = (Some \<lparr>section_type = [0x89, 0x4C, 0x46, 0x4D], section_len = 3,
               section_data = [0xFF, 0xD8, 0xFF], section_sha1 = replicate 45 0\<rparr>, 99, 1)"
  by code_simp

lemma oversized_skip:
  "skip_nulls (fst (load_file oversized_record zeroed)) 0 100 = (0, 100, [0])"
  by code_simp

lemma oversized_declared:
  "ntohl_at (fst (load_file oversized_record zeroed)) 12 = 16777216"
  by code_simp

lemma skip_nulls_reads_end:
  assumes "\<forall>a. cur \<le> a \<and> a < cur + unat in_len \<longrightarrow> mem a = 0"
    and "skip_nulls mem cur in_len = (p, l, rd)"
  shows "p = cur + unat in_len" and "l = 0" and "cur + unat in_len \<in> set rd"
proof -
  note b = skip_nulls_bounds [OF assms(2)]
  have "l = 0"
  proof (rule ccontr)
    assume "l \<noteq> 0"
    then have "0 < unat l" by (simp add: unat_gt_0)
    with b(1,2) have "cur \<le> p \<and> p < cur + unat in_len" by linarith
    with assms(1) have "mem p = 0" by blast
    with b(5) \<open>l \<noteq> 0\<close> show False by simp
  qed
  then show "l = 0" .
  with b(1) show p: "p = cur + unat in_len" by simp
  show "cur + unat in_len \<in> set rd"
    using b(2,3) p by simp
qed

lemma parse_section_reads_one_past:
  assumes "calloc_ok" and "\<forall>a. cur \<le> a \<and> a < cur + unat in_len \<longrightarrow> mem a = 0"
  shows "Read (cur + unat in_len) \<in> set (snd (parse_section_acc mem calloc_ok malloc_ok cur in_len))"
proof -
  obtain p l rd where sk: "skip_nulls mem cur in_len = (p, l, rd)"
    by (cases "skip_nulls mem cur in_len") auto
  from skip_nulls_reads_end [OF assms(2) sk] assms(1) show ?thesis
    unfolding parse_section_acc_unfold [OF sk] by simp
qed

text \<open>
  Every address a call reads lies in the region \<open>[cur, cur + in_len)\<close>, but for the one at its
  end, which is read exactly when the whole region is zero.
\<close>
lemma parse_section_reads_bounded:
  assumes "0 <=s in_len"
    and "Read a \<in> set (snd (parse_section_acc mem calloc_ok malloc_ok cur in_len))"
  shows "cur \<le> a \<and> (a < cur + unat in_len
            \<or> a = cur + unat in_len \<and> (\<forall>b. cur \<le> b \<and> b < a \<longrightarrow> mem b = 0))"
proof -
  obtain p l rd where sk: "skip_nulls mem cur in_len = (p, l, rd)"
    by (cases "skip_nulls mem cur in_len") auto
  note b = skip_nulls_bounds [OF sk]
  note nn = skip_nulls_nonneg [OF assms(1) sk]
  let ?ok = "\<lambda>a. cur \<le> a \<and> (a < cur + unat in_len
            \<or> a = cur + unat in_len \<and> (\<forall>b. cur \<le> b \<and> b < a \<longrightarrow> mem b = 0))"
  have rd: "?ok a" if "a \<in> set rd" for a
  proof -
    from that b(3) have a: "cur \<le> a" "a \<le> p" by auto
    show ?thesis
    proof (cases "a < cur + unat in_len")
      case True
      with a show ?thesis by simp
    next
      case False
      with a b(1) have "a = p" "a = cur + unat in_len" by linarith+
      with b(4) a show ?thesis by auto
    qed
  qed
  show ?thesis
  proof (cases "calloc_ok \<and> \<not> (scast l :: 64 word) \<le> 96")
    case False
    with assms(2) rd show ?thesis
      unfolding parse_section_acc_unfold [OF sk] by (auto split: if_splits)
  next
    case True
    then have l96: "96 < unat l"
      using nn(1) by (simp add: scast_le_96)
    have hdr: "?ok a" if "a \<in> set (addrs p 4 @ addrs (p + 12) 4 @ addrs (p + 16) 45)" for a
      using that b(1,2) l96 by (auto simp: addrs_def)
    show ?thesis
    proof (cases "l - 96 < ntohl_at mem (p + 12)")
      case True
      with assms(2) rd hdr \<open>calloc_ok \<and> \<not> (scast l :: 64 word) \<le> 96\<close> show ?thesis
        unfolding parse_section_acc_unfold [OF sk] by (auto split: if_splits)
    next
      case False
      then have "unat (ntohl_at mem (p + 12)) \<le> unat l - 96"
        using l96 by (simp add: word_less_nat_alt unat_sub_96 not_less)
      then have pay: "?ok a" if "a \<in> set (addrs (p + 96) (unat (ntohl_at mem (p + 12))))" for a
        using that b(1,2) l96 by (auto simp: addrs_def)
      from assms(2) rd hdr pay show ?thesis
        unfolding parse_section_acc_unfold [OF sk] by (auto split: if_splits)
    qed
  qed
qed

text \<open>
  C1. The claim is that the padding skip never reads at or past the end of the remaining
  region. On the 17-byte file \<open>zero_tail_file\<close>, which passes the magic check, \<^verbatim>\<open>main\<close> calls
  \<^verbatim>\<open>parse_section\<close> with cursor 16 and remaining length 1; the call reads address 16 and then
  address 17, the first byte after the buffer, because the loop condition dereferences
  \<^verbatim>\<open>ptr\<close> before it looks at \<open>len\<close>.
\<close>
theorem parse_section_reads_past_end:
  "length zero_tail_file = 17
   \<and> lfp_file_check (fst (load_file zero_tail_file zeroed)) (snd (load_file zero_tail_file zeroed))
   \<and> snd (load_file zero_tail_file zeroed) - 16 = 1
   \<and> parse_section_acc (fst (load_file zero_tail_file zeroed)) True True 16 1
       = ((None, 16, 1), [Read 16, Read 17])"
  by code_simp

text \<open>
  C2. From a state with a non-negative remaining length, \<^verbatim>\<open>parse_section\<close> returns a record
  only if more than 96 bytes remain after the padding and the declared big-endian length is at
  most what remains after the 96-byte header; and whenever the declared length exceeds what
  remains after the header, the call returns \<^verbatim>\<open>NULL\<close>, leaves the caller's pair alone and never
  calls \<^verbatim>\<open>malloc\<close>.
\<close>
theorem parse_section_record_only_if:
  assumes "0 <=s in_len" and "skip_nulls mem cur in_len = (p, l, rd)"
  shows "(\<forall>s cur' len'. parse_section mem calloc_ok malloc_ok cur in_len = (Some s, cur', len')
            \<longrightarrow> 96 < sint l \<and> section_len s = ntohl_at mem (p + 12)
                \<and> uint (section_len s) \<le> sint l - 96)
       \<and> (sint l - 96 < uint (ntohl_at mem (p + 12))
            \<longrightarrow> parse_section mem calloc_ok malloc_ok cur in_len = (None, cur, in_len)
                \<and> (\<forall>n. Malloc n \<notin> set (snd (parse_section_acc mem calloc_ok malloc_ok cur in_len))))"
proof (intro conjI allI impI)
  note nn = skip_nulls_nonneg [OF assms]
  have sl: "sint l = int (unat l)"
    by (rule sint_eq_unat [OF nn(1)])
  {
    fix s cur' len'
    assume ps: "parse_section mem calloc_ok malloc_ok cur in_len = (Some s, cur', len')"
    note f = parse_section_Some [OF assms ps]
    show "96 < sint l" using f(1) sl by linarith
    show "section_len s = ntohl_at mem (p + 12)" by (rule f(2))
    show "uint (section_len s) \<le> sint l - 96"
      using f(1,3) sl by (simp only: uint_nat)
  }
  assume big: "sint l - 96 < uint (ntohl_at mem (p + 12))"
  note fail = declared_exceeds_remaining [OF assms big]
  then have "fst (parse_section mem calloc_ok malloc_ok cur in_len) = None"
    by (auto simp: parse_section_None_iff [OF assms(2)])
  then show "parse_section mem calloc_ok malloc_ok cur in_len = (None, cur, in_len)"
    by (rule parse_section_None_unchanged)
  fix n
  show "Malloc n \<notin> set (snd (parse_section_acc mem calloc_ok malloc_ok cur in_len))"
    using fail unfolding parse_section_acc_unfold [OF assms(2)] by auto
qed

theorem parse_section_record_only_if_witness:
  "parse_section (fst (load_file one_record zeroed)) True True 0 100
     = (Some \<lparr>section_type = [0x89, 0x4C, 0x46, 0x4D], section_len = 3,
               section_data = [0xFF, 0xD8, 0xFF], section_sha1 = replicate 45 0\<rparr>, 99, 1)
   \<and> 96 < sint (100 :: c_int)
   \<and> uint (3 :: 32 word) \<le> sint (100 :: c_int) - 96
   \<and> sint (100 :: c_int) - 96 < uint (ntohl_at (fst (load_file oversized_record zeroed)) 12)
   \<and> parse_section (fst (load_file oversized_record zeroed)) True True 0 100 = (None, 0, 100)
   \<and> Malloc 16777216 \<notin> set (snd (parse_section_acc (fst (load_file oversized_record zeroed)) True True 0 100))"
proof -
  have nn: "0 <=s (100 :: c_int)" by (simp add: word_sle_eq)
  have big: "sint (100 :: c_int) - 96 < uint (ntohl_at (fst (load_file oversized_record zeroed)) 12)"
    by (simp add: oversized_declared)
  from parse_section_record_only_if [OF nn one_record_skip, of True True] one_record_parse
  have "96 < sint (100 :: c_int) \<and> uint (3 :: 32 word) \<le> sint (100 :: c_int) - 96"
    by simp
  moreover from parse_section_record_only_if [OF nn oversized_skip, of True True] big
  have "parse_section (fst (load_file oversized_record zeroed)) True True 0 100 = (None, 0, 100)
   \<and> Malloc 16777216 \<notin> set (snd (parse_section_acc (fst (load_file oversized_record zeroed)) True True 0 100))"
    by simp
  ultimately show ?thesis
    using one_record_parse big by simp
qed



text \<open>
  C9, as the claim states it, fails: from the same cursor and remaining length, an end of
  stream, a truncated record and an oversized declaration all make \<^verbatim>\<open>parse_section\<close> return the
  same thing.
\<close>
theorem parse_section_failures_look_alike:
  "spec_failure zeroed 0 100 = Some EndOfStream
   \<and> spec_failure (fst (load_file truncated_record zeroed)) 0 100 = Some TruncatedRecord
   \<and> spec_failure (fst (load_file oversized_record zeroed)) 0 100 = Some OversizedPayloadDeclaration
   \<and> parse_section zeroed True True 0 100 = (None, 0, 100)
   \<and> parse_section (fst (load_file truncated_record zeroed)) True True 0 100 = (None, 0, 100)
   \<and> parse_section (fst (load_file oversized_record zeroed)) True True 0 100 = (None, 0, 100)"
  by code_simp

text \<open>
  C9, amended. Whatever the failure kind of the specification, \<^verbatim>\<open>parse_section\<close> reports it by
  the one \<^verbatim>\<open>NULL\<close> return and leaves the caller's cursor and remaining length unchanged, so
  the result carries no information about the cause.
\<close>
theorem parse_section_failure_signal:
  assumes "0 <=s in_len" and "spec_failure mem cur in_len = Some f"
  shows "parse_section mem calloc_ok malloc_ok cur in_len = (None, cur, in_len)"
proof -
  obtain p l rd where sk: "skip_nulls mem cur in_len = (p, l, rd)"
    by (cases "skip_nulls mem cur in_len") auto
  note nn = skip_nulls_nonneg [OF assms(1) sk]
  have sl: "sint l = int (unat l)"
    by (rule sint_eq_unat [OF nn(1)])
  from assms(2) sk have "l = 0 \<or> sint l \<le> 96 \<or> sint l - 96 < uint (ntohl_at mem (p + 12))"
    by (auto simp: spec_failure_def split: if_splits)
  moreover have "sint l \<le> 96 \<Longrightarrow> (scast l :: 64 word) \<le> 96"
  proof -
    assume "sint l \<le> 96"
    with sl have "unat l \<le> 96" by linarith
    then show ?thesis using nn(1) by (simp add: scast_le_96)
  qed
  ultimately have "(scast l :: 64 word) \<le> 96 \<or> sint l - 96 < uint (ntohl_at mem (p + 12))"
    by auto
  then show ?thesis
  proof
    assume "(scast l :: 64 word) \<le> 96"
    then have "fst (parse_section mem calloc_ok malloc_ok cur in_len) = None"
      by (simp add: parse_section_None_iff [OF sk])
    then show ?thesis by (rule parse_section_None_unchanged)
  next
    assume "sint l - 96 < uint (ntohl_at mem (p + 12))"
    from declared_exceeds_remaining [OF assms(1) sk this]
    have "fst (parse_section mem calloc_ok malloc_ok cur in_len) = None"
      by (auto simp: parse_section_None_iff [OF sk])
    then show ?thesis by (rule parse_section_None_unchanged)
  qed
qed

lemma truncated_failure:
  "spec_failure (fst (load_file truncated_record zeroed)) 0 100 = Some TruncatedRecord"
  by code_simp

theorem parse_section_failure_signal_witness:
  "0 <=s (100 :: c_int)
   \<and> spec_failure (fst (load_file truncated_record zeroed)) 0 100 = Some TruncatedRecord
   \<and> parse_section (fst (load_file truncated_record zeroed)) True True 0 100 = (None, 0, 100)"
proof -
  have nn: "0 <=s (100 :: c_int)" by (simp add: word_sle_eq)
  from parse_section_failure_signal [OF nn truncated_failure, of True True] nn truncated_failure
  show ?thesis by simp
qed

section \<open>The depth table decoder\<close>

lemma digit_not_nul: "d < 10 \<Longrightarrow> CHR 0x00 \<noteq> digit d"
proof -
  assume "d < 10"
  then have "d \<in> {0, 1, 2, 3, 4, 5, 6, 7, 8, 9}" by auto
  then show ?thesis by (auto simp: digit_def)
qed

lemma dec_no_nul: "CHR 0x00 \<notin> set (dec n)"
proof (induction n rule: dec.induct)
  case (1 n)
  show ?case
  proof (cases "n < 10")
    case True
    then show ?thesis by (simp add: dec.simps [of n] digit_not_nul)
  next
    case False
    with "1.IH" show ?thesis
      by (simp add: dec.simps [of n] digit_not_nul)
  qed
qed

lemma frac6_no_nul: "CHR 0x00 \<notin> set (frac6 n)"
  by (simp add: frac6_def digit_not_nul)

lemma printf_f_no_nul: "CHR 0x00 \<notin> set (printf_f w)"
  by (simp add: printf_f_def dec_no_nul frac6_no_nul)

lemma strlen_no_nul:
  assumes "CHR 0x00 \<notin> set s"
  shows "strlen s = length s"
proof -
  have "takeWhile (\<lambda>c. c \<noteq> CHR 0x00) s = s"
    using assms by auto
  then show ?thesis
    unfolding strlen_def by (rule arg_cong)
qed

lemma strlen_snprintf_f: "strlen (snprintf_f n x) = length (snprintf_f n x)"
proof (rule strlen_no_nul)
  have "set (snprintf_f n x) \<subseteq> set (printf_f x @ [CHR 0x0A])"
    unfolding snprintf_f_def by (rule set_take_subset)
  then show "CHR 0x00 \<notin> set (snprintf_f n x)"
    using printf_f_no_nul [of x] by auto
qed

lemma length_snprintf_f_20: "length (snprintf_f 20 x) \<le> 19"
  by (simp add: snprintf_f_def)

lemma depth_loop_fits:
  assumes "4 * n \<le> length data" and "length depth + 19 * (n - i) \<le> cap"
  shows "depth_loop data cap n i depth
           = Inr (depth @ concat (map (\<lambda>j. snprintf_f 20 (float_bits data j)) [i ..< n]))"
  using assms
proof (induction data cap n i depth rule: depth_loop.induct)
  case (1 data cap n i depth)
  show ?case
  proof (cases "i < n")
    case False
    then show ?thesis
      by (simp add: depth_loop.simps [of data cap n i depth])
  next
    case True
    let ?val = "snprintf_f 20 (float_bits data i)"
    from True "1.prems"(1) have fa: "float_at data i = Some (float_bits data i)"
      by (simp add: float_at_def)
    have vl: "strlen ?val = length ?val" "length ?val \<le> 19"
      by (simp_all add: strlen_snprintf_f length_snprintf_f_20)
    from True "1.prems"(2) vl(2) have fits: "\<not> cap < length depth + strlen ?val"
      by (simp add: vl(1))
    have next_fits: "length (depth @ take (strlen ?val) ?val) + 19 * (n - (i + 1)) \<le> cap"
      using True "1.prems"(2) vl by simp
    from "1.IH" [OF True fa refl refl fits "1.prems"(1) next_fits]
    have "depth_loop data cap n (i + 1) (depth @ take (strlen ?val) ?val)
            = Inr (depth @ ?val @ concat (map (\<lambda>j. snprintf_f 20 (float_bits data j)) [i + 1 ..< n]))"
      by (simp add: vl(1))
    then show ?thesis
      using True fa fits by (simp add: depth_loop.simps [of data cap n i depth] upt_conv_Cons Let_def)
  qed
qed

lemma sdiv_4_nonneg: "0 \<le> (k :: int) \<Longrightarrow> k sdiv 4 = k div 4"
  by (cases "k = 0") (simp_all add: signed_divide_int_def)

text \<open>The size \<^verbatim>\<open>depth_string\<close> asks for is \<open>5 * len\<close> in 32 bits, whatever \<open>len\<close> is.\<close>
lemma filelen_5_len: "(word_of_int (20 * sint len sdiv 4) :: c_int) = 5 * len"
proof -
  have "20 * sint len sdiv 4 = 5 * sint len"
    by (simp add: signed_divide_int_def abs_mult sgn_mult mult_sgn_abs)
  then show ?thesis by simp
qed

lemma depth_string_sizes:
  assumes "unat (len :: c_int) < 107374183"
  shows "unat (scast (word_of_int (20 * sint len sdiv 4) :: c_int) :: 64 word) = 5 * unat len"
    and "nat (sint len sdiv 4) = unat len div 4"
proof -
  have "unat len < 2147483648" using assms by linarith
  then have sl: "sint len = int (unat len)" by (rule sint_eq_unat)
  have "20 * sint len sdiv 4 = 5 * int (unat len)"
    unfolding sl by (simp add: sdiv_4_nonneg)
  then have fl: "(word_of_int (20 * sint len sdiv 4) :: c_int) = 5 * len"
    by simp
  have ufl: "unat (5 * len) = 5 * unat len"
  proof -
    have "unat (5 :: c_int) * unat len < 2 ^ LENGTH(32)"
      using assms by simp
    then have "unat (5 * len) = unat (5 :: c_int) * unat len"
      by (simp only: unat_mult_lem)
    then show ?thesis by simp
  qed
  have "unat (scast (5 * len) :: 64 word) = unat (5 * len)"
    by (rule unat_scast_nonneg) (use assms ufl in linarith)
  with fl ufl show "unat (scast (word_of_int (20 * sint len sdiv 4) :: c_int) :: 64 word) = 5 * unat len"
    by simp
  from sl have "sint len sdiv 4 = int (unat len) div 4"
    by (simp add: sdiv_4_nonneg)
  also have "\<dots> = int (unat len div 4)"
    by (simp only: zdiv_int of_nat_numeral)
  finally show "nat (sint len sdiv 4) = unat len div 4"
    by simp
qed

lemma depth_string_output:
  assumes "length data = unat len" and "0 < unat len" and "unat len < 107374183"
  shows "depth_string True data len
           = Inr (Some (concat (map (\<lambda>i. take 19 (printf_f (float_bits data i) @ [CHR 0x0A]))
                                  [0 ..< length data div 4]),
                        word_of_nat (sum_list (map (\<lambda>i. length (take 19 (printf_f (float_bits data i) @ [CHR 0x0A])))
                                                   [0 ..< length data div 4]))))"
proof -
  let ?n = "unat len div 4"
  let ?out = "concat (map (\<lambda>j. snprintf_f 20 (float_bits data j)) [0 ..< ?n])"
  note sz = depth_string_sizes [OF assms(3)]
  have "4 * ?n \<le> length data" using assms(1) by simp
  moreover have "length ([] :: string) + 19 * (?n - 0) \<le> 5 * unat len" by simp
  ultimately have loop: "depth_loop data (5 * unat len) ?n 0 [] = Inr ([] @ ?out)"
    by (rule depth_loop_fits)
  have "depth_string True data len = Inr (Some (?out, word_of_nat (length ?out)))"
    using assms(2) loop by (simp add: depth_string_def Let_def sz)
  then show ?thesis
    by (simp add: assms(1) snprintf_f_def length_concat comp_def)
qed

lemmas printf_eval =
  printf_f_def float_micro_def float_scaled_def float_exponent_def float_fraction_def
  round_half_even_def Let_def

lemma printf_f_zero: "printf_f 0 = ''0.000000''"
  by (simp add: printf_eval) (simp add: dec.simps frac6_def digit_def)

lemma printf_f_one: "printf_f 0x3F800000 = ''1.000000''"
  by (simp add: printf_eval) (simp add: dec.simps frac6_def digit_def)

lemma printf_f_two_to_65: "printf_f 0x60000000 = ''36893488147419103232.000000''"
  by (simp add: printf_eval) (simp add: dec.simps frac6_def digit_def)

text \<open>
  C6, as the claim states it, fails: the one sample \<open>2^65\<close> of a 4-byte payload is rendered
  as 27 characters, of which \<^verbatim>\<open>snprintf(val, 20, ...)\<close> keeps 19, so the output holds no
  newline and not one complete line.
\<close>
theorem depth_string_line_without_newline:
  "depth_string True [0x00, 0x00, 0x00, 0x60] 4 = Inr (Some (''3689348814741910323'', 19))
   \<and> printf_f (float_bits [0x00, 0x00, 0x00, 0x60] 0) = ''36893488147419103232.000000''
   \<and> CHR 0x0A \<notin> set ''3689348814741910323''"
proof -
  have fb: "float_bits [0x00, 0x00, 0x00, 0x60] 0 = 0x60000000"
    by (simp add: float_bits_def)
  have "depth_string True [0x00, 0x00, 0x00, 0x60] 4 = Inr (Some (''3689348814741910323'', 19))"
    using depth_string_output [of "[0x00, 0x00, 0x00, 0x60]" 4]
    by (simp add: fb printf_f_two_to_65)
  then show ?thesis
    by (simp add: fb printf_f_two_to_65)
qed

text \<open>
  C6, amended. For a payload of \<open>L\<close> bytes with \<open>0 < L < 107374183\<close> whose output block is
  allocated, \<^verbatim>\<open>depth_string\<close> emits one chunk per 4-byte sample, \<open>L div 4\<close> chunks in sample
  order and nothing for the trailing bytes; the chunk of a sample is the first 19 bytes of its
  \<^verbatim>\<open>"%f"\<close> rendering followed by a newline, which is the whole line when the rendering has at most
  18 characters; the returned length is the sum of the chunk lengths.
\<close>
theorem depth_string_chunks:
  assumes "length data = unat len" and "0 < unat len" and "unat len < 107374183"
  shows "depth_string True data len
           = Inr (Some (concat (map (\<lambda>i. take 19 (printf_f (float_bits data i) @ [CHR 0x0A]))
                                  [0 ..< length data div 4]),
                        word_of_nat (sum_list (map (\<lambda>i. length (take 19 (printf_f (float_bits data i) @ [CHR 0x0A])))
                                                   [0 ..< length data div 4]))))"
  using assms by (rule depth_string_output)

theorem depth_string_chunks_witness:
  "length [0x00, 0x00, 0x80, 0x3F, 0xAA :: byte] = unat (5 :: c_int)
   \<and> depth_string True [0x00, 0x00, 0x80, 0x3F, 0xAA] 5 = Inr (Some (''1.000000'' @ [CHR 0x0A], 9))"
proof -
  have fb: "float_bits [0x00, 0x00, 0x80, 0x3F, 0xAA] 0 = 0x3F800000"
    by (simp add: float_bits_def)
  show ?thesis
    using depth_string_chunks [of "[0x00, 0x00, 0x80, 0x3F, 0xAA]" 5]
    by (simp add: fb printf_f_one)
qed

text \<open>
  C10. The claim is that the bytes written stay inside the block of \<^verbatim>\<open>20*len/4\<close> bytes for
  every input length. For \<open>len = 858993460\<close> the size \<open>5 * len = 4294967300\<close> does not fit an
  \<^verbatim>\<open>int\<close> and \<^verbatim>\<open>filelen\<close> is 4, so the block has 4 bytes, and the first line (\<^verbatim>\<open>0.000000\<close>
  and a newline, 9 bytes) is written past its end; for \<open>len = 0\<close> the block has no byte and
  \<^verbatim>\<open>depth[0] = '\0'\<close> is written past its end.
\<close>
theorem depth_string_overruns:
  "depth_string True (replicate 858993460 0) 858993460 = Inl DepthOverrun
   \<and> depth_string True [] 0 = Inl DepthOverrun"
proof
  have fb: "float_at (replicate 858993460 0) 0 = Some 0"
    by (simp add: float_at_def float_bits_def)
  have val: "snprintf_f 20 0 = ''0.000000'' @ [CHR 0x0A]"
    by (simp add: snprintf_f_def printf_f_zero)
  have "depth_loop (replicate 858993460 0) 4 214748365 0 [] = Inl DepthOverrun"
    by (simp add: depth_loop.simps [of _ 4 214748365 0 "[]"] fb val strlen_def)
  then show "depth_string True (replicate 858993460 0) 858993460 = Inl DepthOverrun"
    by (simp add: depth_string_def Let_def)
  show "depth_string True [] 0 = Inl DepthOverrun"
    by (simp add: depth_string_def Let_def)
qed

section \<open>The extraction driver\<close>

text \<open>The loop invariant: the cursor plus the remaining length is the end of the buffer.\<close>

lemma main_step_Some:
  assumes "main_step mem hp (ptr, len, sections) = Some (Inr (ptr', len', sections'))"
  shows "0 <s len"
    and "\<exists>s. parse_section mem (fst (hp (length sections))) (snd (hp (length sections))) ptr len
                = (Some s, ptr', len') \<and> sections' = sections @ [s]"
    and "length sections < 100"
  using assms by (auto simp: main_step_def split: if_splits prod.splits option.splits)

lemma parse_section_keeps_end:
  assumes "0 <=s len" and "parse_section mem c m ptr len = (Some s, ptr', len')"
  shows "ptr' + unat len' = ptr + unat len" and "unat len' < 2147483648"
    and "length (section_data s) = unat (section_len s)"
proof -
  obtain p l rd where sk: "skip_nulls mem ptr len = (p, l, rd)"
    by (cases "skip_nulls mem ptr len") auto
  note b = skip_nulls_bounds [OF sk]
  note nn = skip_nulls_nonneg [OF assms(1) sk]
  note f = parse_section_Some [OF assms(1) sk assms(2)]
  show "ptr' + unat len' = ptr + unat len"
    using b(1) f(1,3,4,5) by linarith
  show "unat len' < 2147483648"
    using nn(1) f(5) by linarith
  show "length (section_data s) = unat (section_len s)"
    by (simp add: f(6) bytes_at_def)
qed

lemma sless_imp_sle: "0 <s (x :: c_int) \<Longrightarrow> 0 <=s x"
  by (simp add: word_sless_alt word_sle_eq)


text \<open>The result of the loop is the state after some number of turns, where the loop stops.\<close>
lemma main_loop_is_iter:
  assumes "main_loop mem hp st = Inr st'"
  shows "\<exists>k. main_iter mem hp k st = Some (Inr st') \<and> main_step mem hp st' = None"
  using assms
proof (induction mem hp st rule: main_loop.induct)
  case (1 mem hp st)
  show ?case
  proof (cases "main_step mem hp st")
    case None
    with "1.prems" have "st' = st"
      by (simp add: main_loop.simps [of mem hp st])
    with None have "main_iter mem hp 0 st = Some (Inr st') \<and> main_step mem hp st' = None"
      by simp
    then show ?thesis ..
  next
    case (Some r)
    show ?thesis
    proof (cases r)
      case (Inl f)
      with Some "1.prems" show ?thesis
        by (simp add: main_loop.simps [of mem hp st])
    next
      case (Inr st1)
      with Some "1.prems" have "main_loop mem hp st1 = Inr st'"
        by (simp add: main_loop.simps [of mem hp st])
      from "1.IH" [OF Some Inr this] obtain k where
        "main_iter mem hp k st1 = Some (Inr st')" "main_step mem hp st' = None"
        by blast
      with Some Inr have "main_iter mem hp (Suc k) st = Some (Inr st') \<and> main_step mem hp st' = None"
        by simp
      then show ?thesis ..
    qed
  qed
qed





lemma sample_loop:
  "main_loop (fst (load_file sample_container zeroed)) (\<lambda>n. (True, True))
     (main_start (snd (load_file sample_container zeroed)))
   = Inr (313, 0, sample_sections)"
  by code_simp

lemma short_file_step:
  "main_step (fst (load_file short_file zeroed)) (\<lambda>n. (True, True))
     (main_start (snd (load_file short_file zeroed))) = None"
  by code_simp




lemma main_loop_sections:
  assumes "main_loop mem hp st = Inr st'"
    and "\<forall>s \<in> set (snd (snd st)). length (section_data s) = unat (section_len s)"
  shows "\<forall>s \<in> set (snd (snd st')). length (section_data s) = unat (section_len s)"
  using assms
proof (induction mem hp st rule: main_loop.induct)
  case (1 mem hp st)
  show ?case
  proof (cases "main_step mem hp st")
    case None
    with "1.prems" show ?thesis
      by (simp add: main_loop.simps [of mem hp st])
  next
    case (Some r)
    show ?thesis
    proof (cases r)
      case (Inl f)
      with Some "1.prems"(1) show ?thesis
        by (simp add: main_loop.simps [of mem hp st])
    next
      case (Inr st1)
      obtain ptr len sections where st: "st = (ptr, len, sections)" by (cases st) auto
      obtain p1 l1 s1 where st1: "st1 = (p1, l1, s1)" by (cases st1) auto
      from main_step_Some [OF Some [unfolded Inr st st1]] obtain s where
        pos: "0 <s len"
        and ps: "parse_section mem (fst (hp (length sections))) (snd (hp (length sections))) ptr len
                   = (Some s, p1, l1)"
        and s1: "s1 = sections @ [s]"
        by blast
      note k = parse_section_keeps_end [OF sless_imp_sle [OF pos] ps]
      have loop: "main_loop mem hp st1 = Inr st'"
        using Some Inr "1.prems"(1) by (simp add: main_loop.simps [of mem hp st])
      have wf: "\<forall>s \<in> set (snd (snd st1)). length (section_data s) = unat (section_len s)"
        using "1.prems"(2) k(3) by (simp add: st st1 s1)
      from "1.IH" [OF Some Inr loop wf] show ?thesis .
    qed
  qed
qed

lemma saved_append: "saved (xs @ ys) = saved xs @ saved ys"
  by (induction xs rule: saved.induct) simp_all

lemma saved_save_and_report:
  "saved (save_and_report E data len name) = [(name, take (unat len) data)]"
  by (simp add: save_and_report_def save_data_def)

lemma saved_concat_map:
  "saved (concat (map (\<lambda>i. save_and_report E (f i) (g i) (h i)) xs))
     = map (\<lambda>i. (h i, take (unat (g i)) (f i))) xs"
  by (induction xs) (simp_all add: saved_append saved_save_and_report)

lemma sample_check:
  "lfp_file_check (fst (load_file sample_container zeroed)) (snd (load_file sample_container zeroed))"
  by code_simp

lemma small_check:
  "lfp_file_check (fst (load_file small_container zeroed)) (snd (load_file small_container zeroed))"
  by code_simp

lemma small_loop:
  "main_loop (fst (load_file small_container zeroed)) (\<lambda>n. (True, True))
     (main_start (snd (load_file small_container zeroed)))
   = Inr (115, 1, [sample_sections ! 2])"
  by code_simp

lemma sample_depth:
  "depth_string True [0x00, 0x00, 0x80, 0x3F] 4 = Inr (Some (''1.000000'' @ [CHR 0x0A], 9))"
proof -
  have fb: "float_bits [0x00, 0x00, 0x80, 0x3F] 0 = 0x3F800000"
    by (simp add: float_bits_def)
  show ?thesis
    using depth_string_output [of "[0x00, 0x00, 0x80, 0x3F]" 4]
    by (simp add: fb printf_f_one)
qed

lemma sample_names:
  "file_name (strip_ext ''a.lfp'') ''_metadata.txt'' = ''a_metadata.txt''"
  "file_name (strip_ext ''a.lfp'') ''_depth.txt'' = ''a_depth.txt''"
  "file_name (strip_ext ''a.lfp'') (''_'' @ dec 0 @ ''.jpg'') = ''a_0.jpg''"
  by (simp_all add: file_name_def strip_ext_def dec.simps digit_def)

text \<open>
  What \<^verbatim>\<open>main\<close> does on the runs in which the loop ends inside the array of 100 pointers
  with the records \<open>sections\<close>, and in which \<^verbatim>\<open>depth_string\<close> stays inside its block: with fewer
  than 3 records it prints "no images found" and returns 0, writing nothing; with 3 or more
  it returns 0 and hands to \<^verbatim>\<open>save_data\<close>, in this order, the payload of record 0 as
  \<^verbatim>\<open>_metadata.txt\<close>, the output of \<^verbatim>\<open>depth_string\<close> on record 1 as \<^verbatim>\<open>_depth.txt\<close> (unless
  its allocation failed), and the payload of each record \<open>i \<ge> 2\<close> as \<^verbatim>\<open>_<i-2>.jpg\<close>.
\<close>
lemma main_classifies_by_position:
  assumes "2 \<le> length argv" and "fs_files E (argv ! 1) = Some contents"
    and "load_file contents (mem_beyond E) = (buf, len)"
    and "lfp_file_check buf len" and "alloc_strdup E"
    and "main_loop buf (alloc_section E) (main_start len) = Inr (ptr, len', sections)"
  shows "(length sections < 3 \<longrightarrow>
            main E argv = Inr (0, [Stderr (''Something went wrong, no images found in ''
                                            @ argv ! 1 @ [CHR 0x0A])]))
       \<and> (3 \<le> length sections \<longrightarrow>
            (\<forall>depth. depth_string (alloc_depth E) (section_data (sections ! 1))
                         (section_len (sections ! 1)) = Inr depth \<longrightarrow>
               (\<exists>evs. main E argv = Inr (0, evs)
                  \<and> saved evs =
                      (file_name (strip_ext (argv ! 1)) ''_metadata.txt'', section_data (sections ! 0))
                      # (case depth of
                           None \<Rightarrow> []
                         | Some (str, n) \<Rightarrow>
                             [(file_name (strip_ext (argv ! 1)) ''_depth.txt'',
                               take (unat n) (map of_char str))])
                      @ map (\<lambda>i. (file_name (strip_ext (argv ! 1)) (''_'' @ dec (i - 2) @ ''.jpg''),
                                   section_data (sections ! i)))
                          [2 ..< length sections])))"
proof (intro conjI impI allI)
  assume "length sections < 3"
  then show "main E argv = Inr (0, [Stderr (''Something went wrong, no images found in ''
                                            @ argv ! 1 @ [CHR 0x0A])])"
    using assms by (simp add: main_def)
next
  fix depth
  assume three: "3 \<le> length sections"
    and d: "depth_string (alloc_depth E) (section_data (sections ! 1)) (section_len (sections ! 1))
              = Inr depth"
  let ?prefix = "strip_ext (argv ! 1)"
  have "\<forall>s \<in> set (snd (snd (ptr, len', sections))). length (section_data s) = unat (section_len s)"
    by (rule main_loop_sections [OF assms(6)]) (simp_all add: main_start_def)
  then have wf: "\<forall>i<length sections. length (section_data (sections ! i)) = unat (section_len (sections ! i))"
    by simp
  have meta: "take (unat (section_len (sections ! 0))) (section_data (sections ! 0))
                = section_data (sections ! 0)"
  proof -
    from three have "0 < length sections" by linarith
    with wf have "length (section_data (sections ! 0)) = unat (section_len (sections ! 0))"
      by blast
    then show ?thesis by simp
  qed
  have imgs: "map (\<lambda>i. (file_name ?prefix (''_'' @ dec (i - 2) @ ''.jpg''),
                          take (unat (section_len (sections ! i))) (section_data (sections ! i))))
                [2 ..< length sections]
              = map (\<lambda>i. (file_name ?prefix (''_'' @ dec (i - 2) @ ''.jpg''), section_data (sections ! i)))
                [2 ..< length sections]"
    using wf by (intro map_cong) auto
  obtain evs where evs: "save_sections E ?prefix sections = Inr evs"
    using d by (cases depth) (auto simp: save_sections_def Let_def)
  have "saved evs =
          (file_name ?prefix ''_metadata.txt'', section_data (sections ! 0))
          # (case depth of
               None \<Rightarrow> []
             | Some (str, n) \<Rightarrow> [(file_name ?prefix ''_depth.txt'', take (unat n) (map of_char str))])
          @ map (\<lambda>i. (file_name ?prefix (''_'' @ dec (i - 2) @ ''.jpg''), section_data (sections ! i)))
              [2 ..< length sections]"
  proof (cases depth)
    case None
    with evs d have "evs = save_and_report E (section_data (sections ! 0)) (section_len (sections ! 0))
                             (file_name ?prefix ''_metadata.txt'')
                           @ concat (map (\<lambda>i. save_and_report E (section_data (sections ! i))
                                      (section_len (sections ! i))
                                      (file_name ?prefix (''_'' @ dec (i - 2) @ ''.jpg'')))
                             [2 ..< length sections])"
      by (simp add: save_sections_def Let_def)
    then show ?thesis
      by (simp only: saved_append saved_save_and_report saved_concat_map meta imgs None) simp
  next
    case (Some tn)
    obtain str n where tn: "tn = (str, n)" by (cases tn) auto
    with Some evs d have "evs = save_and_report E (section_data (sections ! 0)) (section_len (sections ! 0))
                             (file_name ?prefix ''_metadata.txt'')
                           @ save_and_report E (map of_char str) n (file_name ?prefix ''_depth.txt'')
                           @ concat (map (\<lambda>i. save_and_report E (section_data (sections ! i))
                                      (section_len (sections ! i))
                                      (file_name ?prefix (''_'' @ dec (i - 2) @ ''.jpg'')))
                             [2 ..< length sections])"
      by (simp add: save_sections_def Let_def)
    then show ?thesis
      by (simp only: saved_append saved_save_and_report saved_concat_map meta imgs Some tn) simp
  qed
  moreover have "main E argv = Inr (0, evs)"
    using assms three evs by (simp add: main_def)
  ultimately show "\<exists>evs. main E argv = Inr (0, evs)
                  \<and> saved evs =
                      (file_name ?prefix ''_metadata.txt'', section_data (sections ! 0))
                      # (case depth of
                           None \<Rightarrow> []
                         | Some (str, n) \<Rightarrow>
                             [(file_name ?prefix ''_depth.txt'', take (unat n) (map of_char str))])
                      @ map (\<lambda>i. (file_name ?prefix (''_'' @ dec (i - 2) @ ''.jpg''),
                                   section_data (sections ! i)))
                          [2 ..< length sections]"
    by blast
qed

lemma main_classifies_samples:
  "(\<exists>evs. main sample_env [''lfpsplitter'', ''a.lfp''] = Inr (0, evs)
       \<and> saved evs = [(''a_metadata.txt'', [0x7B, 0x7D]),
                       (''a_depth.txt'', map of_char (''1.000000'' @ [CHR 0x0A])),
                       (''a_0.jpg'', [0xFF, 0xD8, 0xFF])])
   \<and> main sample_env [''lfpsplitter'', ''b.lfp'']
       = Inr (0, [Stderr (''Something went wrong, no images found in b.lfp'' @ [CHR 0x0A])])"
proof
  have E: "fs_files sample_env ''a.lfp'' = Some sample_container"
    "fs_files sample_env ''b.lfp'' = Some small_container"
    "mem_beyond sample_env = zeroed" "alloc_section sample_env = (\<lambda>n. (True, True))"
    "alloc_strdup sample_env" "alloc_depth sample_env"
    by (simp_all add: sample_env_def)
  have three: "length sample_sections = 3" "sample_sections ! 0 = \<lparr>section_type = [0x89, 0x4C, 0x46, 0x4D], section_len = 2,
        section_data = [0x7B, 0x7D], section_sha1 = replicate 45 0\<rparr>"
    "sample_sections ! 1 = \<lparr>section_type = [0x89, 0x4C, 0x46, 0x4D], section_len = 4,
        section_data = [0x00, 0x00, 0x80, 0x3F], section_sha1 = replicate 45 0\<rparr>"
    "sample_sections ! 2 = \<lparr>section_type = [0x89, 0x4C, 0x46, 0x4D], section_len = 3,
        section_data = [0xFF, 0xD8, 0xFF], section_sha1 = replicate 45 0\<rparr>"
    by (simp_all add: sample_sections_def)
  have ge: "3 \<le> length sample_sections"
    by (simp add: three(1))
  note a = main_classifies_by_position [of "[''lfpsplitter'', ''a.lfp'']" sample_env sample_container
      "fst (load_file sample_container zeroed)" "snd (load_file sample_container zeroed)"
      313 0 sample_sections]
  have "3 \<le> length sample_sections \<longrightarrow>
          (\<forall>depth. depth_string (alloc_depth sample_env) (section_data (sample_sections ! 1))
                       (section_len (sample_sections ! 1)) = Inr depth \<longrightarrow>
             (\<exists>evs. main sample_env [''lfpsplitter'', ''a.lfp''] = Inr (0, evs)
                \<and> saved evs =
                    (file_name (strip_ext ([''lfpsplitter'', ''a.lfp''] ! 1)) ''_metadata.txt'',
                     section_data (sample_sections ! 0))
                    # (case depth of
                         None \<Rightarrow> []
                       | Some (str, n) \<Rightarrow>
                           [(file_name (strip_ext ([''lfpsplitter'', ''a.lfp''] ! 1)) ''_depth.txt'',
                             take (unat n) (map of_char str))])
                    @ map (\<lambda>i. (file_name (strip_ext ([''lfpsplitter'', ''a.lfp''] ! 1))
                                    (''_'' @ dec (i - 2) @ ''.jpg''),
                                 section_data (sample_sections ! i)))
                        [2 ..< length sample_sections]))"
    by (rule a [THEN conjunct2]) (simp_all add: E sample_check sample_loop)
  moreover have "depth_string (alloc_depth sample_env) (section_data (sample_sections ! 1))
                       (section_len (sample_sections ! 1)) = Inr (Some (''1.000000'' @ [CHR 0x0A], 9))"
    unfolding three(3) by (simp add: E sample_depth)
  ultimately have "\<exists>evs. main sample_env [''lfpsplitter'', ''a.lfp''] = Inr (0, evs)
                \<and> saved evs =
                    (file_name (strip_ext ([''lfpsplitter'', ''a.lfp''] ! 1)) ''_metadata.txt'',
                     section_data (sample_sections ! 0))
                    # (case Some (''1.000000'' @ [CHR 0x0A], 9 :: c_int) of
                         None \<Rightarrow> []
                       | Some (str, n) \<Rightarrow>
                           [(file_name (strip_ext ([''lfpsplitter'', ''a.lfp''] ! 1)) ''_depth.txt'',
                             take (unat n) (map of_char str))])
                    @ map (\<lambda>i. (file_name (strip_ext ([''lfpsplitter'', ''a.lfp''] ! 1))
                                    (''_'' @ dec (i - 2) @ ''.jpg''),
                                 section_data (sample_sections ! i)))
                        [2 ..< length sample_sections]"
    using ge by blast
  then have "\<exists>evs. main sample_env [''lfpsplitter'', ''a.lfp''] = Inr (0, evs)
                \<and> saved evs =
                    (file_name (strip_ext ''a.lfp'') ''_metadata.txt'', [0x7B, 0x7D])
                    # [(file_name (strip_ext ''a.lfp'') ''_depth.txt'',
                             take (unat (9 :: c_int)) (map of_char (''1.000000'' @ [CHR 0x0A])))]
                    @ [(file_name (strip_ext ''a.lfp'') (''_'' @ dec 0 @ ''.jpg''), [0xFF, 0xD8, 0xFF])]"
    by (simp add: three upt_rec [of 2 3])
  then show "\<exists>evs. main sample_env [''lfpsplitter'', ''a.lfp''] = Inr (0, evs)
       \<and> saved evs = [(''a_metadata.txt'', [0x7B, 0x7D]),
                       (''a_depth.txt'', map of_char (''1.000000'' @ [CHR 0x0A])),
                       (''a_0.jpg'', [0xFF, 0xD8, 0xFF])]"
    by (simp only: sample_names) simp
  note b = main_classifies_by_position [of "[''lfpsplitter'', ''b.lfp'']" sample_env small_container
      "fst (load_file small_container zeroed)" "snd (load_file small_container zeroed)"
      115 1 "[sample_sections ! 2]"]
  have "length [sample_sections ! 2] < 3 \<longrightarrow>
            main sample_env [''lfpsplitter'', ''b.lfp'']
              = Inr (0, [Stderr (''Something went wrong, no images found in ''
                                  @ [''lfpsplitter'', ''b.lfp''] ! 1 @ [CHR 0x0A])])"
    by (rule b [THEN conjunct1]) (simp_all add: E small_check small_loop)
  then show "main sample_env [''lfpsplitter'', ''b.lfp'']
       = Inr (0, [Stderr (''Something went wrong, no images found in b.lfp'' @ [CHR 0x0A])])"
    by simp
qed

text \<open>
  The container of 101 records: every record starts with a non-zero byte and declares the
  length 1, so each call of \<^verbatim>\<open>parse_section\<close> consumes 97 bytes and returns a record.
\<close>
lemma length_sample_record: "length (sample_header n @ [b]) = 97"
  by (simp add: sample_header_def)

lemma nth_concat_replicate:
  "i < n * length xs \<Longrightarrow> concat (replicate n xs) ! i = xs ! (i mod length xs)"
proof (induction n arbitrary: i)
  case 0
  then show ?case by simp
next
  case (Suc n)
  show ?case
  proof (cases "i < length xs")
    case True
    then show ?thesis by (simp add: nth_append)
  next
    case False
    with Suc.prems have "i - length xs < n * length xs" by simp
    from Suc.IH [OF this] False show ?thesis
      by (simp add: nth_append le_mod_geq)
  qed
qed

lemma crowded_length: "length crowded_container = 9813"
  by (simp add: crowded_container_def magic_def length_concat sum_list_replicate sample_header_def)

lemma crowded_mem:
  assumes "j < 101" and "i < 97"
  shows "fst (load_file crowded_container zeroed) (16 + 97 * j + i) = (sample_header 1 @ [0xFF]) ! i"
proof -
  let ?k = "97 * j + i"
  let ?r = "sample_header 1 @ [0xFF]"
  have lr: "length ?r = 97" by (rule length_sample_record)
  from assms have k: "?k < 101 * length ?r"
    unfolding lr by simp
  have "crowded_container ! (16 + ?k) = concat (replicate 101 ?r) ! ?k"
    by (simp add: crowded_container_def magic_def nth_append)
  also have "\<dots> = ?r ! (?k mod 97)"
    using nth_concat_replicate [OF k] unfolding lr .
  also have "?k mod 97 = i"
    using assms(2) by simp
  finally show ?thesis
    using assms by (simp add: load_file_def crowded_length add.assoc)
qed

lemma sample_record_bytes:
  "(sample_header 1 @ [0xFF]) ! 0 = 0x89" "(sample_header 1 @ [0xFF]) ! 12 = 0"
  "(sample_header 1 @ [0xFF]) ! 13 = 0" "(sample_header 1 @ [0xFF]) ! 14 = 0"
  "(sample_header 1 @ [0xFF]) ! 15 = 1"
  by code_simp+

lemma crowded_record:
  assumes "j < 101"
  shows "fst (load_file crowded_container zeroed) (16 + 97 * j) \<noteq> 0"
    and "ntohl_at (fst (load_file crowded_container zeroed)) (16 + 97 * j + 12) = 1"
proof -
  from crowded_mem [OF assms, of 0] show "fst (load_file crowded_container zeroed) (16 + 97 * j) \<noteq> 0"
    by (simp add: sample_record_bytes)
  from crowded_mem [OF assms, of 12] crowded_mem [OF assms, of 13] crowded_mem [OF assms, of 14]
    crowded_mem [OF assms, of 15]
  show "ntohl_at (fst (load_file crowded_container zeroed)) (16 + 97 * j + 12) = 1"
    by (simp add: ntohl_at_def sample_record_bytes add.assoc)
qed

lemma parse_section_one_byte:
  assumes "mem p \<noteq> 0" and "ntohl_at mem (p + 12) = 1"
    and "96 < unat l" and "unat l < 2147483648"
  shows "\<exists>s. parse_section mem True True p l = (Some s, p + 97, l - 97)"
proof -
  from assms(1) have sk: "skip_nulls mem p l = (p, l, [p])"
    by (simp add: skip_nulls.simps [of mem p l])
  from assms(3,4) have big: "\<not> (scast l :: 64 word) \<le> 96"
    by (simp add: scast_le_96)
  have "unat (l - 96) = unat l - 96"
    using assms(3) by (rule unat_sub_96)
  with assms(3) have fits: "\<not> l - 96 < 1"
    by (simp add: word_less_nat_alt)
  show ?thesis
    unfolding parse_section_def parse_section_acc_unfold [OF sk]
    using big fits by (simp add: assms(2))
qed

lemma sless_0_unat:
  assumes "0 < unat (l :: c_int)" and "unat l < 2147483648"
  shows "0 <s l"
proof -
  have "sint l = int (unat l)" by (rule sint_eq_unat [OF assms(2)])
  with assms(1) have "0 < sint l" by linarith
  then show ?thesis by (simp add: word_sless_alt)
qed

lemma unat_sub_97:
  assumes "96 < unat (l :: c_int)"
  shows "unat (l - 97) = unat l - 97"
  using unat_sub_of_nat [of 97 l] assms by simp

lemma crowded_loop:
  assumes "100 - k = d" and "k \<le> 100" and "length secs = k" and "unat l = 97 * (101 - k)"
  shows "main_loop (fst (load_file crowded_container zeroed)) (\<lambda>n. (True, True))
           (16 + 97 * k, l, secs) = Inl SectionsOverrun"
  using assms
proof (induction d arbitrary: k l secs)
  case 0
  then have k: "k = 100" by simp
  with "0.prems" have ul: "unat l = 97" by simp
  then have pos: "0 <s l"
    by (intro sless_0_unat) simp_all
  from ul have "96 < unat l" "unat l < 2147483648" by simp_all
  from parse_section_one_byte [OF crowded_record [of k] this] k obtain s where
    "parse_section (fst (load_file crowded_container zeroed)) True True (16 + 97 * k) l
       = (Some s, 16 + 97 * k + 97, l - 97)"
    by auto
  with pos "0.prems"(3) k
  have "main_step (fst (load_file crowded_container zeroed)) (\<lambda>n. (True, True)) (16 + 97 * k, l, secs)
          = Some (Inl SectionsOverrun)"
    by (simp add: main_step_def)
  then show ?case
    by (simp add: main_loop.simps [of _ _ "(16 + 97 * k, l, secs)"])
next
  case (Suc d)
  then have k: "k < 100" by simp
  with Suc.prems have ul: "96 < unat l" "unat l < 2147483648" by simp_all
  then have pos: "0 <s l"
    by (intro sless_0_unat) simp_all
  from k have "k < 101" by simp
  from parse_section_one_byte [OF crowded_record [OF this] ul] obtain s where
    ps: "parse_section (fst (load_file crowded_container zeroed)) True True (16 + 97 * k) l
       = (Some s, 16 + 97 * k + 97, l - 97)"
    by auto
  with pos Suc.prems(3) k
  have st: "main_step (fst (load_file crowded_container zeroed)) (\<lambda>n. (True, True)) (16 + 97 * k, l, secs)
          = Some (Inr (16 + 97 * Suc k, l - 97, secs @ [s]))"
    by (simp add: main_step_def)
  have "unat (l - 97) = unat l - 97"
    using ul(1) by (rule unat_sub_97)
  with Suc.prems k have ul': "unat (l - 97) = 97 * (101 - Suc k)"
    by (simp add: diff_mult_distrib2)
  have "main_loop (fst (load_file crowded_container zeroed)) (\<lambda>n. (True, True))
           (16 + 97 * Suc k, l - 97, secs @ [s]) = Inl SectionsOverrun"
    by (rule Suc.IH [OF _ _ _ ul']) (use Suc.prems k in simp_all)
  with st show ?case
    by (simp add: main_loop.simps [of _ _ "(16 + 97 * k, l, secs)"])
qed

lemma crowded_check:
  "lfp_file_check (fst (load_file crowded_container zeroed)) (snd (load_file crowded_container zeroed))"
proof -
  have "bytes_at (fst (load_file crowded_container zeroed)) 0 8 = take 8 crowded_container"
    by (rule bytes_at_load_file) (simp add: crowded_length)
  also have "\<dots> = magic"
    by (simp add: crowded_container_def magic_def)
  finally show ?thesis
    by (simp add: lfp_file_check_def load_file_def crowded_length word_sless_alt)
qed

lemma crowded_start:
  "main_start (snd (load_file crowded_container zeroed)) = (16, 9797, [])"
  by (simp add: main_start_def load_file_def crowded_length hdr_defs)

text \<open>
  C7. The claim is that for every container from which the driver parses a sequence of
  records the records are classified by position, and that the run does not crash and exits
  with code 0. On the 9813-byte file \<open>crowded_container\<close>, which passes the magic check, the
  loop of \<^verbatim>\<open>main\<close> fills the array \<^verbatim>\<open>sections[100]\<close> with the first 100 records; the 101st
  call of \<^verbatim>\<open>parse_section\<close> succeeds as well, and \<^verbatim>\<open>sections[num_sections] = section\<close> then
  stores past the end of the array, for want of a bound check; what the program does from
  there on is undefined.
\<close>
theorem main_overruns_sections:
  "length crowded_container = 9813
   \<and> lfp_file_check (fst (load_file crowded_container zeroed)) (snd (load_file crowded_container zeroed))
   \<and> main_loop (fst (load_file crowded_container zeroed)) (\<lambda>n. (True, True))
        (main_start (snd (load_file crowded_container zeroed))) = Inl SectionsOverrun
   \<and> main crowded_env [''lfpsplitter'', ''c.lfp''] = Inl SectionsOverrun"
proof -
  have "main_loop (fst (load_file crowded_container zeroed)) (\<lambda>n. (True, True))
           (16 + 97 * 0, 9797, []) = Inl SectionsOverrun"
    by (rule crowded_loop [of 0 100]) simp_all
  then have loop: "main_loop (fst (load_file crowded_container zeroed)) (\<lambda>n. (True, True))
        (main_start (snd (load_file crowded_container zeroed))) = Inl SectionsOverrun"
    by (simp add: crowded_start)
  have "main crowded_env [''lfpsplitter'', ''c.lfp''] = Inl SectionsOverrun"
    using crowded_check loop
    by (simp add: main_def crowded_env_def split_beta)
  with loop crowded_check crowded_length show ?thesis
    by simp
qed

section \<open>Printing a float and reading it back\<close>

lemma digit_cases:
  assumes "(d :: nat) < 10"
  shows "d = 0 \<or> d = 1 \<or> d = 2 \<or> d = 3 \<or> d = 4 \<or> d = 5 \<or> d = 6 \<or> d = 7 \<or> d = 8 \<or> d = 9"
  using assms by presburger

lemma of_char_digit: "d < 10 \<Longrightarrow> of_char (digit d) = (48 + d :: nat)"
  using digit_cases [of d] by (auto simp: digit_def)

lemma digit_is_digit: "d < 10 \<Longrightarrow> digit d \<in> set ''0123456789''"
  using digit_cases [of d] by (auto simp: digit_def)

lemma undec_snoc: "undec (s @ [c]) = 10 * undec s + (of_char c - 48)"
  by (simp add: undec_def)

lemma undec_dec: "undec (dec n) = n"
proof (induction n rule: dec.induct)
  case (1 n)
  show ?case
  proof (cases "n < 10")
    case True
    then show ?thesis
      by (simp add: dec.simps [of n] undec_def of_char_digit)
  next
    case False
    with "1.IH" show ?thesis
      by (simp add: dec.simps [of n] undec_snoc of_char_digit)
  qed
qed

lemma set_dec: "set (dec n) \<subseteq> set ''0123456789''"
proof (induction n rule: dec.induct)
  case (1 n)
  show ?case
  proof (cases "n < 10")
    case True
    then show ?thesis
      using digit_is_digit [of n] by (simp add: dec.simps [of n])
  next
    case False
    with "1.IH" show ?thesis
      using digit_is_digit [of "n mod 10"] by (simp add: dec.simps [of n])
  qed
qed

lemma dec_not_Nil: "dec n \<noteq> []"
  by (cases "n < 10") (simp_all add: dec.simps [of n])

lemma length_frac6: "length (frac6 n) = 6"
  by (simp add: frac6_def)

lemma digit_step: "n div (k * 10) * 10 + n div k mod 10 = (n div k :: nat)"
  by (simp add: div_mult2_eq)

lemma undec_frac6:
  assumes "n < 1000000"
  shows "undec (frac6 n) = n"
proof -
  have u: "undec (frac6 n) =
          ((((n div 100000 mod 10 * 10 + n div 10000 mod 10) * 10 + n div 1000 mod 10) * 10
             + n div 100 mod 10) * 10 + n div 10 mod 10) * 10 + n mod 10"
    by (simp add: frac6_def undec_def of_char_digit)
  have "n div 100000 < 10"
    using assms by (simp add: div_less_iff_less_mult)
  then have s5: "n div 100000 mod 10 = n div 100000"
    by simp
  have s4: "n div 100000 * 10 + n div 10000 mod 10 = n div 10000"
    using digit_step [of n 10000] by simp
  have s3: "n div 10000 * 10 + n div 1000 mod 10 = n div 1000"
    using digit_step [of n 1000] by simp
  have s2: "n div 1000 * 10 + n div 100 mod 10 = n div 100"
    using digit_step [of n 100] by simp
  have s1: "n div 100 * 10 + n div 10 mod 10 = n div 10"
    using digit_step [of n 10] by simp
  have s0: "n div 10 * 10 + n mod 10 = n"
    by simp
  show ?thesis
    unfolding u s5 s4 s3 s2 s1 s0 ..
qed

lemma round_half_even_near:
  assumes "0 < b"
  shows "2 * \<bar>int a - int (round_half_even a b) * int b\<bar> \<le> int b"
    and "2 * \<bar>int a - int (round_half_even a b) * int b\<bar> = int b \<Longrightarrow> even (round_half_even a b)"
proof -
  define q r where "q = a div b" and "r = a mod b"
  have a: "int a = int q * int b + int r"
    unfolding q_def r_def by (metis div_mult_mod_eq of_nat_add of_nat_mult)
  have r: "r < b" unfolding r_def using assms by simp
  show "2 * \<bar>int a - int (round_half_even a b) * int b\<bar> \<le> int b"
  proof (cases "b < 2 * r \<or> (2 * r = b \<and> odd q)")
    case True
    then have "round_half_even a b = q + 1"
      by (simp add: round_half_even_def Let_def q_def r_def)
    then have "int a - int (round_half_even a b) * int b = int r - int b"
      using a by (simp add: algebra_simps)
    then show ?thesis using True r by auto
  next
    case False
    then have "round_half_even a b = q"
      by (simp add: round_half_even_def Let_def q_def r_def)
    then have "int a - int (round_half_even a b) * int b = int r"
      using a by simp
    then show ?thesis using False by auto
  qed
  assume tie: "2 * \<bar>int a - int (round_half_even a b) * int b\<bar> = int b"
  show "even (round_half_even a b)"
  proof (cases "b < 2 * r \<or> (2 * r = b \<and> odd q)")
    case True
    then have rh: "round_half_even a b = q + 1"
      by (simp add: round_half_even_def Let_def q_def r_def)
    then have "int a - int (round_half_even a b) * int b = int r - int b"
      using a by (simp add: algebra_simps)
    with tie r have "2 * r = b" by auto
    with True have "odd q" by auto
    then show ?thesis using rh by simp
  next
    case False
    then have rh: "round_half_even a b = q"
      by (simp add: round_half_even_def Let_def q_def r_def)
    then have "int a - int (round_half_even a b) * int b = int r"
      using a by simp
    with tie have "2 * r = b" by auto
    with False have "even q" by auto
    then show ?thesis using rh by simp
  qed
qed

lemma round_half_even_unique:
  assumes "0 < b"
    and "2 * \<bar>int a - int N * int b\<bar> < int b \<or> (2 * \<bar>int a - int N * int b\<bar> = int b \<and> even N)"
  shows "round_half_even a b = N"
proof -
  define q r where "q = a div b" and "r = a mod b"
  have a: "int a = int q * int b + int r"
    unfolding q_def r_def by (metis div_mult_mod_eq of_nat_add of_nat_mult)
  have r: "r < b" unfolding r_def using assms(1) by simp
  from assms(2) have le: "2 * \<bar>int a - int N * int b\<bar> \<le> int b" by auto
  have "N = q \<or> N = q + 1"
  proof (rule ccontr)
    assume "\<not> (N = q \<or> N = q + 1)"
    then consider "N + 1 \<le> q" | "q + 2 \<le> N" by linarith
    then show False
    proof cases
      case 1
      then have "(int N + 1) * int b \<le> int q * int b"
        by (intro mult_right_mono) simp_all
      then have "int b \<le> int a - int N * int b"
        using a by (simp add: algebra_simps)
      with le assms(1) show False by simp
    next
      case 2
      then have "(int q + 2) * int b \<le> int N * int b"
        by (intro mult_right_mono) simp_all
      then have "int a - int N * int b \<le> int r - 2 * int b"
        using a by (simp add: algebra_simps)
      with le r assms(1) show False by simp
    qed
  qed
  then show ?thesis
  proof
    assume N: "N = q"
    then have "int a - int N * int b = int r" using a by simp
    with assms(2) N have "\<not> (b < 2 * r \<or> (2 * r = b \<and> odd q))" by auto
    then show ?thesis
      by (simp add: round_half_even_def Let_def q_def r_def N)
  next
    assume N: "N = q + 1"
    then have "int a - int N * int b = int r - int b" using a by (simp add: algebra_simps)
    with assms(2) N r have "b < 2 * r \<or> (2 * r = b \<and> odd q)" by auto
    then show ?thesis
      by (simp add: round_half_even_def Let_def q_def r_def N)
  qed
qed

lemma float_micro_nearest:
  assumes "\<bar>int (float_scaled w) * 10 ^ 6 - int (float_micro x) * 2 ^ 149\<bar>
             \<le> \<bar>int (float_scaled x) * 10 ^ 6 - int (float_micro x) * 2 ^ 149\<bar>"
  shows "float_micro w = float_micro x"
proof -
  let ?b = "2 ^ 149 :: nat"
  let ?N = "float_micro x"
  have b: "0 < ?b" by simp
  note n = round_half_even_near [OF b, of "float_scaled x * 10 ^ 6"]
  have nx: "2 * \<bar>int (float_scaled x * 10 ^ 6) - int ?N * int ?b\<bar> \<le> int ?b"
    using n(1) by (simp only: float_micro_def)
  have ev: "2 * \<bar>int (float_scaled x * 10 ^ 6) - int ?N * int ?b\<bar> = int ?b \<Longrightarrow> even ?N"
    using n(2) by (simp only: float_micro_def)
  from assms have le: "\<bar>int (float_scaled w * 10 ^ 6) - int ?N * int ?b\<bar>
                        \<le> \<bar>int (float_scaled x * 10 ^ 6) - int ?N * int ?b\<bar>"
    by simp
  define A B c where "A = \<bar>int (float_scaled w * 10 ^ 6) - int ?N * int ?b\<bar>"
    and "B = \<bar>int (float_scaled x * 10 ^ 6) - int ?N * int ?b\<bar>" and "c = int ?b"
  have "A \<le> B" "2 * B \<le> c" "2 * B = c \<Longrightarrow> even ?N"
    using le nx ev unfolding A_def B_def c_def by blast+
  then have "2 * A < c \<or> (2 * A = c \<and> even ?N)"
    by (cases "2 * A < c") auto
  then have "2 * \<bar>int (float_scaled w * 10 ^ 6) - int ?N * int ?b\<bar> < int ?b
          \<or> (2 * \<bar>int (float_scaled w * 10 ^ 6) - int ?N * int ?b\<bar> = int ?b \<and> even ?N)"
    unfolding A_def B_def c_def .
  then have "round_half_even (float_scaled w * 10 ^ 6) ?b = ?N"
    by (rule round_half_even_unique [OF b])
  then show ?thesis
    by (simp only: float_micro_def)
qed

lemma hd_dec_digit: "hd (dec n) \<in> set ''0123456789''"
  using set_dec [of n] dec_not_Nil [of n] hd_in_set by blast

lemma dec_no_point: "\<forall>c \<in> set (dec n). c \<noteq> CHR ''.''"
  using set_dec [of n] by auto

lemma read_finite_body:
  assumes "b < 1000000"
  shows "takeWhile (\<lambda>c. c \<noteq> CHR ''.'') (dec a @ ''.'' @ frac6 b) = dec a"
    and "drop (length (dec a) + 1) (dec a @ ''.'' @ frac6 b) = frac6 b"
    and "dec a @ ''.'' @ frac6 b \<noteq> ''inf''" and "dec a @ ''.'' @ frac6 b \<noteq> ''nan''"
    and "take 1 (dec a @ ''.'' @ frac6 b) \<noteq> ''-''"
proof -
  show "takeWhile (\<lambda>c. c \<noteq> CHR ''.'') (dec a @ ''.'' @ frac6 b) = dec a"
    using dec_no_point [of a] by (simp add: takeWhile_tail)
  show "drop (length (dec a) + 1) (dec a @ ''.'' @ frac6 b) = frac6 b"
    by simp
  have len: "length (dec a @ ''.'' @ frac6 b) = length (dec a) + 7"
    by (simp add: length_frac6)
  show "dec a @ ''.'' @ frac6 b \<noteq> ''inf''"
  proof
    assume "dec a @ ''.'' @ frac6 b = ''inf''"
    then have "length (dec a @ ''.'' @ frac6 b) = length ''inf''" by (rule arg_cong)
    with len show False by simp
  qed
  show "dec a @ ''.'' @ frac6 b \<noteq> ''nan''"
  proof
    assume "dec a @ ''.'' @ frac6 b = ''nan''"
    then have "length (dec a @ ''.'' @ frac6 b) = length ''nan''" by (rule arg_cong)
    with len show False by simp
  qed
  have "take 1 (dec a @ ''.'' @ frac6 b) = [hd (dec a)]"
    using dec_not_Nil [of a] by (cases "dec a") simp_all
  moreover have "hd (dec a) \<noteq> CHR ''-''"
    using hd_dec_digit [of a] by auto
  ultimately show "take 1 (dec a @ ''.'' @ frac6 b) \<noteq> ''-''"
    by simp
qed

lemma reads_unsigned_finite:
  assumes "b < 1000000"
  shows "reads_unsigned (dec a @ ''.'' @ frac6 b) w = nearest_float (a * 10 ^ 6 + b) 6 w"
proof -
  note fb = read_finite_body [OF assms, of a]
  show ?thesis
    by (simp only: reads_unsigned_def Let_def fb(1) fb(2) fb(3) fb(4) if_False length_frac6
          undec_dec undec_frac6 [OF assms])
qed

lemma reads_as_printf_f:
  assumes "reads_as (printf_f x) w"
  shows "printf_f w = printf_f x"
proof -
  define body where "body =
     (if float_exponent x = 255 then (if float_fraction x = 0 then ''inf'' else ''nan'')
      else dec (float_micro x div 10 ^ 6) @ ''.'' @ frac6 (float_micro x mod 10 ^ 6))"
  have px: "printf_f x = (if bit x 31 then ''-'' else []) @ body"
    by (simp add: printf_f_def body_def)
  have lt: "float_micro x mod 10 ^ 6 < 1000000" by simp
  note fb = read_finite_body [OF lt, of "float_micro x div 10 ^ 6"]
  have nominus: "take 1 body \<noteq> ''-''"
    using fb(5) by (auto simp: body_def)
  from assms have sign: "bit w 31 = bit x 31" and rest: "reads_unsigned body w"
    using nominus by (auto simp: reads_as_def px split: if_splits)
  show ?thesis
  proof (cases "float_exponent x = 255")
    case True
    then have "body = ''inf'' \<and> float_fraction x = 0 \<or> body = ''nan'' \<and> float_fraction x \<noteq> 0"
      by (simp add: body_def)
    with rest True sign show ?thesis
      by (auto simp: printf_f_def reads_unsigned_def)
  next
    case False
    then have b: "body = dec (float_micro x div 10 ^ 6) @ ''.'' @ frac6 (float_micro x mod 10 ^ 6)"
      by (simp add: body_def)
    have "float_micro x div 10 ^ 6 * 10 ^ 6 + float_micro x mod 10 ^ 6 = float_micro x"
      by (rule div_mult_mod_eq)
    with rest have "nearest_float (float_micro x) 6 w"
      unfolding b using reads_unsigned_finite [OF lt, of "float_micro x div 10 ^ 6" w] by simp
    then have fin: "float_exponent w \<noteq> 255"
      and near: "\<forall>z. float_exponent z \<noteq> 255 \<longrightarrow>
                     \<bar>int (float_scaled w) * 10 ^ 6 - int (float_micro x) * 2 ^ 149\<bar>
                       \<le> \<bar>int (float_scaled z) * 10 ^ 6 - int (float_micro x) * 2 ^ 149\<bar>"
      by (simp_all add: nearest_float_def)
    from near False have "float_micro w = float_micro x"
      by (intro float_micro_nearest) blast
    with fin False sign show ?thesis
      by (simp add: printf_f_def)
  qed
qed

lemma take_19_line:
  "length p \<le> 18 \<Longrightarrow> take 19 (p @ [CHR 0x0A]) = p @ [CHR 0x0A]"
  by simp

lemma reads_as_one: "reads_as ''1.000000'' 0x3F800000"
proof -
  have s: "float_exponent 0x3F800000 = 127" "float_scaled 0x3F800000 = 2 ^ 149"
    by (simp_all add: float_scaled_def float_exponent_def float_fraction_def)
  have "nearest_float (1 * 10 ^ 6 + 0) 6 0x3F800000"
    unfolding nearest_float_def s by simp
  moreover have "''1.000000'' = dec 1 @ ''.'' @ frac6 0"
    by (simp add: dec.simps frac6_def digit_def)
  ultimately have "reads_unsigned ''1.000000'' 0x3F800000"
    using reads_unsigned_finite [of 0 1 "0x3F800000"] by simp
  then show ?thesis
    by (simp add: reads_as_def)
qed

text \<open>
  C8, as the claim states it, fails: a 12-byte payload of three samples \<open>2^65\<close> gives 57
  characters without a single newline, not three newline-terminated lines.
\<close>
theorem depth_string_three_samples_no_line:
  "depth_string True [0x00, 0x00, 0x00, 0x60, 0x00, 0x00, 0x00, 0x60, 0x00, 0x00, 0x00, 0x60] 12
     = Inr (Some (''3689348814741910323'' @ ''3689348814741910323'' @ ''3689348814741910323'', 57))
   \<and> CHR 0x0A \<notin> set (''3689348814741910323'' @ ''3689348814741910323'' @ ''3689348814741910323'')"
proof -
  let ?d = "[0x00, 0x00, 0x00, 0x60, 0x00, 0x00, 0x00, 0x60, 0x00, 0x00, 0x00, 0x60] :: byte list"
  have fb: "float_bits ?d 0 = 0x60000000" "float_bits ?d (Suc 0) = 0x60000000"
    "float_bits ?d 2 = 0x60000000"
    by (simp_all add: float_bits_def)
  have up: "[0 ..< 3] = [0, Suc 0, 2 :: nat]"
    by (simp add: upt_rec)
  have "depth_string True ?d 12
     = Inr (Some (''3689348814741910323'' @ ''3689348814741910323'' @ ''3689348814741910323'', 57))"
    using depth_string_output [of ?d 12]
    by (simp add: up fb printf_f_two_to_65)
  then show ?thesis
    by simp
qed

text \<open>
  C8, amended. For a 12-byte payload whose three samples each render in at most 18
  characters, \<^verbatim>\<open>depth_string\<close> produces exactly the three newline-terminated lines of the
  samples, in order; and for each line, every float that a correctly rounding parser may
  return for it is formatted by \<^verbatim>\<open>snprintf(val, 20, "%f\n", ...)\<close> to the identical line.
\<close>
theorem depth_string_round_trip:
  assumes "length data = 12" and "\<forall>i<3. length (printf_f (float_bits data i)) \<le> 18"
  shows "depth_string True data 12
           = Inr (Some (printf_f (float_bits data 0) @ [CHR 0x0A]
                          @ printf_f (float_bits data 1) @ [CHR 0x0A]
                          @ printf_f (float_bits data 2) @ [CHR 0x0A],
                        word_of_nat (length (printf_f (float_bits data 0)) + 1
                                       + (length (printf_f (float_bits data 1)) + 1)
                                       + (length (printf_f (float_bits data 2)) + 1))))
       \<and> (\<forall>i<3. \<forall>w. reads_as (printf_f (float_bits data i)) w
              \<longrightarrow> snprintf_f 20 w = printf_f (float_bits data i) @ [CHR 0x0A])"
proof (intro conjI allI impI)
  have l: "length (printf_f (float_bits data 0)) \<le> 18" "length (printf_f (float_bits data 1)) \<le> 18"
    "length (printf_f (float_bits data 2)) \<le> 18"
    using assms(2) by simp_all
  have up: "[0 ..< 12 div 4] = [0, 1, 2 :: nat]"
    by (simp add: upt_rec)
  have "depth_string True data 12
          = Inr (Some (concat (map (\<lambda>i. take 19 (printf_f (float_bits data i) @ [CHR 0x0A]))
                                 [0 ..< length data div 4]),
                       word_of_nat (sum_list (map (\<lambda>i. length (take 19 (printf_f (float_bits data i) @ [CHR 0x0A])))
                                                [0 ..< length data div 4]))))"
    by (rule depth_string_output) (simp_all add: assms(1))
  then show "depth_string True data 12
           = Inr (Some (printf_f (float_bits data 0) @ [CHR 0x0A]
                          @ printf_f (float_bits data 1) @ [CHR 0x0A]
                          @ printf_f (float_bits data 2) @ [CHR 0x0A],
                        word_of_nat (length (printf_f (float_bits data 0)) + 1
                                       + (length (printf_f (float_bits data 1)) + 1)
                                       + (length (printf_f (float_bits data 2)) + 1))))"
    unfolding assms(1) up using l by (simp add: take_19_line)
next
  fix i w
  assume i: "i < (3 :: nat)" and r: "reads_as (printf_f (float_bits data i)) w"
  from r have "printf_f w = printf_f (float_bits data i)"
    by (rule reads_as_printf_f)
  moreover from i assms(2) have "length (printf_f (float_bits data i)) \<le> 18"
    by blast
  ultimately show "snprintf_f 20 w = printf_f (float_bits data i) @ [CHR 0x0A]"
    by (simp add: snprintf_f_def)
qed

theorem depth_string_round_trip_witness:
  "depth_string True [0x00, 0x00, 0x80, 0x3F, 0x00, 0x00, 0x80, 0x3F, 0x00, 0x00, 0x80, 0x3F] 12
     = Inr (Some (''1.000000'' @ [CHR 0x0A] @ ''1.000000'' @ [CHR 0x0A] @ ''1.000000'' @ [CHR 0x0A], 27))
   \<and> reads_as ''1.000000'' 0x3F800000
   \<and> snprintf_f 20 0x3F800000 = ''1.000000'' @ [CHR 0x0A]"
proof -
  let ?d = "[0x00, 0x00, 0x80, 0x3F, 0x00, 0x00, 0x80, 0x3F, 0x00, 0x00, 0x80, 0x3F] :: byte list"
  have fb: "float_bits ?d 0 = 0x3F800000" "float_bits ?d 1 = 0x3F800000" "float_bits ?d 2 = 0x3F800000"
    "float_bits ?d (Suc 0) = 0x3F800000"
    by (simp_all add: float_bits_def)
  have short: "\<forall>i<3. length (printf_f (float_bits ?d i)) \<le> 18"
  proof (intro allI impI)
    fix i :: nat assume "i < 3"
    then have "i = 0 \<or> i = 1 \<or> i = 2" by linarith
    then show "length (printf_f (float_bits ?d i)) \<le> 18"
      using fb by (auto simp: printf_f_one)
  qed
  have len: "length ?d = 12" by simp
  note t = depth_string_round_trip [OF len short]
  from t [THEN conjunct1] have "depth_string True ?d 12
     = Inr (Some (''1.000000'' @ [CHR 0x0A] @ ''1.000000'' @ [CHR 0x0A] @ ''1.000000'' @ [CHR 0x0A], 27))"
    by (simp add: fb printf_f_one)
  moreover from t [THEN conjunct2] reads_as_one
  have "snprintf_f 20 0x3F800000 = ''1.000000'' @ [CHR 0x0A]"
    using fb(1) printf_f_one by (metis zero_less_numeral)
  ultimately show ?thesis
    using reads_as_one by simp
qed

end
